theory Spec2Isabelle
  imports Main "HOL-Library.Word"
begin

unbundle bit_operations_syntax

section \<open>Data model\<close>

text \<open>
  All sizes, addresses, keys and values of the program are Go \<open>uint64\<close>: 64-bit words
  whose arithmetic wraps around. A byte is an 8-bit word.
\<close>

type_synonym u64 = "64 word"
type_synonym byte = "8 word"

text \<open>
  The first three constructors are Go run-time panics (an index or a slice expression out
  of range, an integer division by zero); the last one is the error value that
  \<open>OpenHash\<close> returns for parameters that are too small. Failures of the operating
  system (open, seek, write, sync, map) are outside the model.
\<close>

datatype error =
    IndexOutOfRange
  | SliceBoundsOutOfRange
  | DivideByZero
  | HashTableTooSmall u64 u64

text \<open>
  \<open>Buf\<close> is a shared read-write mapping of the whole file, so the bytes of the file
  and the bytes of the window are one list: \<open>Buf\<close> holds them. The file handle
  \<open>Fh\<close> is only used to append to them and to map them again.
\<close>

record File =
  Name :: string
  UsedSize :: u64
  Size :: u64
  Growth :: u64
  Buf :: "byte list"

text \<open>
  The locks themselves belong to the concurrent behaviour and are not modelled, but the
  slice of locks is indexed by every operation, and an index outside it panics:
  \<open>regionRWMutex\<close> is the length of that slice.
\<close>

record HashTable =
  File :: File
  BucketSize :: u64
  HashBits :: u64
  PerBucket :: u64
  NumBuckets :: u64
  InitialBuckets :: u64
  regionRWMutex :: nat

definition FILE_GROWTH_INCREMENTAL :: u64 where
  "FILE_GROWTH_INCREMENTAL = 1048576"

definition HASH_TABLE_GROWTH :: u64 where
  "HASH_TABLE_GROWTH = 1048576"

definition ENTRY_VALID :: byte where
  "ENTRY_VALID = 1"

definition ENTRY_INVALID :: byte where
  "ENTRY_INVALID = 0"

definition ENTRY_SIZE :: u64 where
  "ENTRY_SIZE = 1 + 10 + 10"

definition BUCKET_HEADER_SIZE :: u64 where
  "BUCKET_HEADER_SIZE = 10"

definition HASH_TABLE_REGION_SIZE :: u64 where
  "HASH_TABLE_REGION_SIZE = 1024 * 16"

section \<open>Bytes, slices and varints\<close>

text \<open>\<open>buf[i]\<close> for a \<open>uint64\<close> index: a panic outside the slice.\<close>

definition index :: "byte list \<Rightarrow> u64 \<Rightarrow> error + byte" where
  "index buf i = (if unat i < length buf then Inr (buf ! unat i) else Inl IndexOutOfRange)"

text \<open>
  A slice expression \<open>buf[lo:hi]\<close> is a window on \<open>buf\<close>, not a copy. It panics
  unless \<open>lo \<le> hi \<le> cap(buf)\<close>; the capacity of a mapping is its length. The model
  passes \<open>buf\<close> itself with the offset \<open>lo\<close> and the length \<open>hi - lo\<close> of the window.
\<close>

definition sliceOK :: "byte list \<Rightarrow> u64 \<Rightarrow> u64 \<Rightarrow> bool" where
  "sliceOK buf lo hi = (lo \<le> hi \<and> unat hi \<le> length buf)"

text \<open>
  \<open>binary.Uvarint\<close> of Go's \<open>encoding/binary\<close>, on the window of \<open>n\<close> bytes at
  \<open>off\<close>: the loop \<open>for i, b := range buf\<close> with the accumulator \<open>x\<close> and the shift
  \<open>s\<close>. Only the decoded value is returned: every caller discards the byte count.
  An overflowing or unterminated varint decodes to 0.
\<close>

function Uvarint_loop :: "byte list \<Rightarrow> nat \<Rightarrow> nat \<Rightarrow> nat \<Rightarrow> u64 \<Rightarrow> nat \<Rightarrow> u64" where
  "Uvarint_loop buf off n i x s =
     (if i < n then
        (let b = buf ! (off + i) in
         if b < 0x80 then
           (if i > 9 \<or> (i = 9 \<and> b > 1) then 0
            else x OR push_bit s (ucast b))
         else Uvarint_loop buf off n (i + 1) (x OR push_bit s (ucast (b AND 0x7f))) (s + 7))
      else 0)"
  by pat_completeness auto
termination
  by (relation "measure (\<lambda>(buf, off, n, i, x, s). n - i)") auto

declare Uvarint_loop.simps [simp del]

text \<open>\<open>binary.Uvarint(buf[lo:hi])\<close>.\<close>

definition Uvarint :: "byte list \<Rightarrow> u64 \<Rightarrow> u64 \<Rightarrow> error + u64" where
  "Uvarint buf lo hi =
     (if sliceOK buf lo hi then Inr (Uvarint_loop buf (unat lo) (unat hi - unat lo) 0 0 0)
      else Inl SliceBoundsOutOfRange)"

text \<open>
  \<open>binary.PutUvarint\<close> on the window of \<open>n\<close> bytes at \<open>off\<close>: the loop
  \<open>for x >= 0x80 { buf[i] = byte(x) | 0x80; x >>= 7; i++ }\<close> and the final
  \<open>buf[i] = byte(x)\<close>. It writes only the bytes of the varint and leaves the rest of the
  window as it was. The returned byte count is discarded by every caller.
\<close>

function PutUvarint_loop :: "byte list \<Rightarrow> nat \<Rightarrow> nat \<Rightarrow> nat \<Rightarrow> u64 \<Rightarrow> error + byte list" where
  "PutUvarint_loop buf off n i x =
     (if x \<ge> 0x80 then
        (if i < n then
           PutUvarint_loop (buf[off + i := ucast x OR 0x80]) off n (i + 1) (drop_bit 7 x)
         else Inl IndexOutOfRange)
      else
        (if i < n then Inr (buf[off + i := ucast x]) else Inl IndexOutOfRange))"
  by pat_completeness auto

lemma drop_bit_7_less:
  fixes x :: u64
  assumes "0x80 \<le> x"
  shows "unat (drop_bit 7 x) < unat x"
proof -
  have "0 < unat x"
    using assms by (simp add: word_le_nat_alt)
  then have "unat x div 2 ^ 7 < unat x"
    by (intro div_less_dividend) auto
  then show ?thesis
    by (simp add: drop_bit_eq_div unat_div)
qed

termination PutUvarint_loop
  by (relation "measure (\<lambda>(buf, off, n, i, x). unat x)") (auto simp: drop_bit_7_less)

declare PutUvarint_loop.simps [simp del]

text \<open>\<open>binary.PutUvarint(buf[lo:hi], x)\<close>.\<close>

definition PutUvarint :: "byte list \<Rightarrow> u64 \<Rightarrow> u64 \<Rightarrow> u64 \<Rightarrow> error + byte list" where
  "PutUvarint buf lo hi x =
     (if sliceOK buf lo hi then PutUvarint_loop buf (unat lo) (unat hi - unat lo) 0 x
      else Inl SliceBoundsOutOfRange)"

section \<open>The mapped file\<close>

text \<open>\<open>CheckSize\<close>: is there room for \<open>more\<close> bytes? The sum is a \<open>uint64\<close> sum.
  (\<open>more\<close> is a selector of every record, so the parameter is written \<open>more'\<close>.)\<close>

definition CheckSize :: "File \<Rightarrow> u64 \<Rightarrow> bool" where
  "CheckSize file more' = (UsedSize file + more' \<le> Size file)"

text \<open>
  The loop of \<open>CheckSizeAndEnsure\<close> that writes zero bytes at the end of the file,
  \<open>for i := uint64(0); i < file.Growth; i += FILE_GROWTH_INCREMENTAL\<close>. \<open>fh\<close> is the
  contents of the file; \<open>zeroBuf\<close> has \<open>FILE_GROWTH_INCREMENTAL\<close> zero bytes, which is
  also its capacity in the slice expression \<open>zeroBuf[0 : i+FILE_GROWTH_INCREMENTAL-file.Growth]\<close>.
  The counter may wrap around, so the loop is a partial function: \<open>None\<close> is a loop that
  does not end.
\<close>

partial_function (option) CheckSizeAndEnsure_loop :: "u64 \<Rightarrow> u64 \<Rightarrow> byte list \<Rightarrow> (error + byte list) option" where
  "CheckSizeAndEnsure_loop i growth fh =
     (if i < growth then
        (if i + FILE_GROWTH_INCREMENTAL > growth then
           (let hi = i + FILE_GROWTH_INCREMENTAL - growth in
            if hi \<le> FILE_GROWTH_INCREMENTAL
            then CheckSizeAndEnsure_loop (i + FILE_GROWTH_INCREMENTAL) growth (fh @ replicate (unat hi) 0)
            else Some (Inl SliceBoundsOutOfRange))
         else CheckSizeAndEnsure_loop (i + FILE_GROWTH_INCREMENTAL) growth
                (fh @ replicate (unat FILE_GROWTH_INCREMENTAL) 0))
      else Some (Inr fh))"

text \<open>
  \<open>CheckSizeAndEnsure\<close>: unmap, seek to the end, write the zero bytes, sync, map the whole
  file again, add \<open>Growth\<close> to \<open>Size\<close>, and call itself. The recursion need not end
  (for \<open>Growth = 0\<close>, or when the \<open>uint64\<close> sizes wrap around).
\<close>

partial_function (option) CheckSizeAndEnsure :: "File \<Rightarrow> u64 \<Rightarrow> (error + File) option" where
  "CheckSizeAndEnsure file more' =
     (if UsedSize file + more' \<le> Size file then Some (Inr file)
      else
        (case CheckSizeAndEnsure_loop 0 (Growth file) (Buf file) of
           None \<Rightarrow> None
         | Some (Inl e) \<Rightarrow> Some (Inl e)
         | Some (Inr fh) \<Rightarrow>
             CheckSizeAndEnsure (file\<lparr>Buf := fh, Size := Size file + Growth file\<rparr>) more'))"

text \<open>
  The search for the used size in \<open>Open\<close>:
  \<open>for low, mid, high := uint64(0), file.Size/2, file.Size; ; { switch { ... } }\<close>.
  The first case is \<open>high-mid == 1\<close>, the second \<open>file.Buf[mid] == 0\<close>, the third the
  default. The result is the value assigned to \<open>file.UsedSize\<close>.
\<close>

partial_function (option) Open_loop :: "byte list \<Rightarrow> u64 \<Rightarrow> u64 \<Rightarrow> u64 \<Rightarrow> (error + u64) option" where
  "Open_loop buf low mid high =
     (if high - mid = 1 then
        (case index buf mid of
           Inl e \<Rightarrow> Some (Inl e)
         | Inr b \<Rightarrow>
             if b = 0 then
               (case index buf (mid - 1) of
                  Inl e \<Rightarrow> Some (Inl e)
                | Inr c \<Rightarrow> if c = 0 then Some (Inr (mid - 1)) else Some (Inr mid))
             else Some (Inr high))
      else
        (case index buf mid of
           Inl e \<Rightarrow> Some (Inl e)
         | Inr b \<Rightarrow>
             if b = 0 then Open_loop buf low (low + (mid - low) div 2) mid
             else Open_loop buf mid (mid + (high - mid) div 2) high))"

text \<open>
  \<open>Open\<close>. The argument \<open>disk\<close> is the file as it is found: \<open>None\<close> when it does not
  exist, and then \<open>O_CREATE\<close> makes it empty. The error that the first statement builds
  for \<open>growth < 1\<close> is overwritten by the result of \<open>os.OpenFile\<close>, so it is never
  returned.
\<close>

definition Open :: "string \<Rightarrow> byte list option \<Rightarrow> u64 \<Rightarrow> (error + File) option" where
  "Open name disk growth =
     (let fh = (case disk of None \<Rightarrow> [] | Some bytes \<Rightarrow> bytes);
          file = \<lparr>Name = name, UsedSize = 0, Size = of_nat (length fh), Growth = growth, Buf = fh\<rparr>
      in if Size file = 0 then CheckSizeAndEnsure file (Growth file)
         else
           (case Open_loop (Buf file) 0 (Size file div 2) (Size file) of
              None \<Rightarrow> None
            | Some (Inl e) \<Rightarrow> Some (Inl e)
            | Some (Inr used) \<Rightarrow> Some (Inr (file\<lparr>UsedSize := used\<rparr>))))"

section \<open>The hash table\<close>

text \<open>\<open>hashKey\<close>: \<open>key & ((1 << ht.HashBits) - 1)\<close>; a shift by 64 or more gives 0.\<close>

definition hashKey :: "HashTable \<Rightarrow> u64 \<Rightarrow> u64" where
  "hashKey ht key = key AND (push_bit (unat (HashBits ht)) 1 - 1)"

definition nextBucket :: "HashTable \<Rightarrow> u64 \<Rightarrow> error + u64" where
  "nextBucket ht bucket =
     (if bucket \<ge> NumBuckets ht then Inr 0
      else
        (let bucketAddr = bucket * BucketSize ht in
         case Uvarint (Buf (File ht)) bucketAddr (bucketAddr + BUCKET_HEADER_SIZE) of
           Inl e \<Rightarrow> Inl e
         | Inr next \<Rightarrow>
             if next = 0 then Inr 0
             else if next \<le> bucket then Inr 0
             else if next \<ge> NumBuckets ht \<or> next < InitialBuckets ht then Inr 0
             else Inr next))"

lemma nextBucket_bounds:
  assumes "nextBucket ht bucket = Inr next" and "next \<noteq> 0"
  shows "bucket < next \<and> next < NumBuckets ht"
  using assms
  by (auto simp: nextBucket_def Let_def not_le split: if_splits sum.splits)

text \<open>\<open>lastBucket\<close>; the variable \<open>curr\<close> of the source is written \<open>cur\<close>.\<close>

function lastBucket :: "HashTable \<Rightarrow> u64 \<Rightarrow> error + u64" where
  "lastBucket ht cur =
     (case nextBucket ht cur of
        Inl e \<Rightarrow> Inl e
      | Inr next \<Rightarrow> if next = 0 then Inr cur else lastBucket ht next)"
  by pat_completeness auto
termination
proof (relation "measure (\<lambda>(ht, cur). unat (NumBuckets ht) - unat cur)")
  show "wf (measure (\<lambda>(ht, cur). unat (NumBuckets ht) - unat cur))"
    by simp
next
  fix ht :: HashTable and cur nxt :: u64
  assume "nextBucket ht cur = Inr nxt" and "nxt \<noteq> 0"
  then have "cur < nxt \<and> nxt < NumBuckets ht"
    by (rule nextBucket_bounds)
  then have "unat cur < unat nxt \<and> unat nxt < unat (NumBuckets ht)"
    by (simp add: word_less_nat_alt)
  then show "((ht, nxt), (ht, cur)) \<in> measure (\<lambda>(ht, cur). unat (NumBuckets ht) - unat cur)"
    by auto
qed

declare lastBucket.simps [simp del]

text \<open>
  \<open>grow\<close>. When the file is full it is extended and
  \<open>HASH_TABLE_GROWTH/HASH_TABLE_REGION_SIZE+1 = 65\<close> locks are appended to the slice of
  locks. Then the header of the last bucket of the chain receives \<open>NumBuckets\<close>, and
  \<open>UsedSize\<close> and \<open>NumBuckets\<close> advance.
\<close>

definition grow :: "HashTable \<Rightarrow> u64 \<Rightarrow> (error + HashTable) option" where
  "grow ht bucket =
     (case (if \<not> CheckSize (File ht) (BucketSize ht) then
              (case CheckSizeAndEnsure (File ht) (BucketSize ht) of
                 None \<Rightarrow> None
               | Some (Inl e) \<Rightarrow> Some (Inl e)
               | Some (Inr file) \<Rightarrow>
                   Some (Inr (ht\<lparr>File := file,
                       regionRWMutex := regionRWMutex ht
                         + unat (HASH_TABLE_GROWTH div HASH_TABLE_REGION_SIZE + 1)\<rparr>)))
            else Some (Inr ht)) of
        None \<Rightarrow> None
      | Some (Inl e) \<Rightarrow> Some (Inl e)
      | Some (Inr ht1) \<Rightarrow>
          (case lastBucket ht1 bucket of
             Inl e \<Rightarrow> Some (Inl e)
           | Inr lastB \<Rightarrow>
               (let lastBucketAddr = lastB * BucketSize ht1 in
                case PutUvarint (Buf (File ht1)) lastBucketAddr (lastBucketAddr + 10) (NumBuckets ht1) of
                  Inl e \<Rightarrow> Some (Inl e)
                | Inr buf \<Rightarrow>
                    Some (Inr (ht1\<lparr>File := (File ht1)\<lparr>Buf := buf,
                                   UsedSize := UsedSize (File ht1) + BucketSize ht1\<rparr>,
                                 NumBuckets := NumBuckets ht1 + 1\<rparr>)))))"

text \<open>
  \<open>uint64(math.Pow(2, float64(n)))\<close>: the power of two, exactly, for \<open>n < 64\<close>. For
  larger \<open>n\<close> the power does not fit and Go leaves the value of the conversion to the
  implementation: it is some \<open>uint64\<close> of which nothing is known.
\<close>

definition Pow2 :: "u64 \<Rightarrow> u64" where
  "Pow2 n = (if n < 64 then 2 ^ unat n else undefined)"

lemma unat_plus_one:
  fixes i :: u64
  assumes "i < b"
  shows "unat (i + 1) = unat i + 1"
proof -
  have "unat i < unat b"
    using assms by (simp add: word_less_nat_alt)
  moreover have "unat b < 2 ^ 64"
    using unsigned_less [of b] by simp
  ultimately have "unat i + 1 < 2 ^ 64"
    by linarith
  then show ?thesis
    by (simp add: unat_word_ariths)
qed

text \<open>
  The loop of \<open>OpenHash\<close> over the head buckets,
  \<open>for i := uint64(0); i < ht.InitialBuckets; i++\<close>, with the running value of
  \<open>longestBucketChain\<close>.
\<close>

function OpenHash_loop :: "HashTable \<Rightarrow> u64 \<Rightarrow> u64 \<Rightarrow> error + u64" where
  "OpenHash_loop ht i longestBucketChain =
     (if i < InitialBuckets ht then
        (case lastBucket ht i of
           Inl e \<Rightarrow> Inl e
         | Inr lastB \<Rightarrow>
             OpenHash_loop ht (i + 1)
               (if lastB + 1 > longestBucketChain \<and> lastB + 1 \<le> NumBuckets ht
                then lastB + 1 else longestBucketChain))
      else Inr longestBucketChain)"
  by pat_completeness auto
termination
proof (relation "measure (\<lambda>(ht, i, l). unat (InitialBuckets ht) - unat i)")
  show "wf (measure (\<lambda>(ht, i, l). unat (InitialBuckets ht) - unat i))"
    by simp
next
  fix ht :: HashTable and i l :: u64 and lastB :: u64
  assume less: "i < InitialBuckets ht"
  then have "unat (i + 1) = unat i + 1"
    by (rule unat_plus_one)
  moreover have "unat i < unat (InitialBuckets ht)"
    using less by (simp add: word_less_nat_alt)
  ultimately show "((ht, i + 1,
        if l < lastB + 1 \<and> lastB + 1 \<le> NumBuckets ht then lastB + 1 else l), (ht, i, l))
      \<in> measure (\<lambda>(ht, i, l). unat (InitialBuckets ht) - unat i)"
    by auto
qed

declare OpenHash_loop.simps [simp del]

text \<open>
  \<open>OpenHash\<close>. \<open>InitialBuckets\<close> is \<open>Pow2 hashBits\<close>. A bucket size that wraps
  around to 0 makes the division panic.
\<close>

definition OpenHash :: "string \<Rightarrow> byte list option \<Rightarrow> u64 \<Rightarrow> u64 \<Rightarrow> (error + HashTable) option" where
  "OpenHash name disk hashBits perBucket =
     (if hashBits < 2 \<or> perBucket < 2 then Some (Inl (HashTableTooSmall hashBits perBucket))
      else
        (case Open name disk HASH_TABLE_GROWTH of
           None \<Rightarrow> None
         | Some (Inl e) \<Rightarrow> Some (Inl e)
         | Some (Inr file) \<Rightarrow>
             (let bucketSize = BUCKET_HEADER_SIZE + ENTRY_SIZE * perBucket in
              if bucketSize = 0 then Some (Inl DivideByZero)
              else
                (let ht = \<lparr>File = file\<lparr>UsedSize := Size file\<rparr>,
                          BucketSize = bucketSize,
                          HashBits = hashBits,
                          PerBucket = perBucket,
                          NumBuckets = Size file div bucketSize,
                          InitialBuckets = Pow2 hashBits,
                          regionRWMutex = unat (Size file div HASH_TABLE_REGION_SIZE + 1)\<rparr>
                 in case OpenHash_loop ht 0 (InitialBuckets ht) of
                      Inl e \<Rightarrow> Some (Inl e)
                    | Inr longestBucketChain \<Rightarrow>
                        (let ht1 = ht\<lparr>NumBuckets := longestBucketChain\<rparr>;
                             usedSize = NumBuckets ht1 * BucketSize ht1
                         in case (if usedSize > Size (File ht1) then
                                    CheckSizeAndEnsure (File ht1)
                                      (((usedSize - Size (File ht1)) div BucketSize ht1 + 1)
                                          * BucketSize ht1)
                                  else Some (Inr (File ht1))) of
                              None \<Rightarrow> None
                            | Some (Inl e) \<Rightarrow> Some (Inl e)
                            | Some (Inr file1) \<Rightarrow>
                                Some (Inr (ht1\<lparr>File := file1\<lparr>UsedSize := usedSize\<rparr>\<rparr>)))))))"

text \<open>
  \<open>Put\<close>. The loop claims the first entry of the chain whose flag is not valid. At the
  end of a full chain it calls \<open>grow\<close> and then \<open>ht.Put(key, val)\<close> again, which is the
  loop from the head bucket after the index into the slice of locks. Nothing in the
  code bounds the number of such rounds, so the loop is a partial function.
\<close>

partial_function (option) Put_loop :: "HashTable \<Rightarrow> u64 \<Rightarrow> u64 \<Rightarrow> u64 \<Rightarrow> u64 \<Rightarrow> (error + HashTable) option" where
  "Put_loop ht key val bucket entry =
     (let entryAddr = bucket * BucketSize ht + BUCKET_HEADER_SIZE + entry * ENTRY_SIZE in
      case index (Buf (File ht)) entryAddr of
        Inl e \<Rightarrow> Some (Inl e)
      | Inr flag \<Rightarrow>
          if flag \<noteq> ENTRY_VALID then
            (case PutUvarint ((Buf (File ht))[unat entryAddr := ENTRY_VALID])
                    (entryAddr + 1) (entryAddr + 11) key of
               Inl e \<Rightarrow> Some (Inl e)
             | Inr buf1 \<Rightarrow>
                 (case PutUvarint buf1 (entryAddr + 11) (entryAddr + 21) val of
                    Inl e \<Rightarrow> Some (Inl e)
                  | Inr buf2 \<Rightarrow> Some (Inr (ht\<lparr>File := (File ht)\<lparr>Buf := buf2\<rparr>\<rparr>))))
          else if entry + 1 = PerBucket ht then
            (case nextBucket ht bucket of
               Inl e \<Rightarrow> Some (Inl e)
             | Inr next \<Rightarrow>
                 if next = 0 then
                   (case grow ht (hashKey ht key) of
                      None \<Rightarrow> None
                    | Some (Inl e) \<Rightarrow> Some (Inl e)
                    | Some (Inr ht1) \<Rightarrow>
                        if unat (hashKey ht1 key div HASH_TABLE_REGION_SIZE) < regionRWMutex ht1
                        then Put_loop ht1 key val (hashKey ht1 key) 0
                        else Some (Inl IndexOutOfRange))
                 else if unat (next div HASH_TABLE_REGION_SIZE) < regionRWMutex ht
                 then Put_loop ht key val next 0
                 else Some (Inl IndexOutOfRange))
          else Put_loop ht key val bucket (entry + 1))"

definition Put :: "HashTable \<Rightarrow> u64 \<Rightarrow> u64 \<Rightarrow> (error + HashTable) option" where
  "Put ht key val =
     (let bucket = hashKey ht key in
      if unat (bucket div HASH_TABLE_REGION_SIZE) < regionRWMutex ht
      then Put_loop ht key val bucket 0
      else Some (Inl IndexOutOfRange))"

text \<open>
  The end of the loop body that \<open>Get\<close>, \<open>Remove\<close> and \<open>GetAll\<close> share:
  \<open>if entry++; entry == ht.PerBucket { entry = 0; if bucket = ht.nextBucket(bucket);
  bucket == 0 { return }; region = bucket / HASH_TABLE_REGION_SIZE;
  mutex = ht.regionRWMutex[region] }\<close>. \<open>None\<close> is the \<open>return\<close> at the end of the
  chain; otherwise the next bucket and entry.
\<close>

definition advance :: "HashTable \<Rightarrow> u64 \<Rightarrow> u64 \<Rightarrow> error + (u64 \<times> u64) option" where
  "advance ht bucket entry =
     (if entry + 1 = PerBucket ht then
        (case nextBucket ht bucket of
           Inl e \<Rightarrow> Inl e
         | Inr next \<Rightarrow>
             if next = 0 then Inr None
             else if unat (next div HASH_TABLE_REGION_SIZE) < regionRWMutex ht
             then Inr (Some (next, 0))
             else Inl IndexOutOfRange)
      else Inr (Some (bucket, entry + 1)))"

definition scan_order :: "((HashTable \<times> u64 \<times> u64) \<times> (HashTable \<times> u64 \<times> u64)) set" where
  "scan_order = inv_image (less_than <*lex*> less_than)
     (\<lambda>(ht, bucket, entry).
        (unat (NumBuckets ht) - unat bucket, unat (PerBucket ht - entry - 1)))"

lemma wf_scan_order: "wf scan_order"
  unfolding scan_order_def by (intro wf_inv_image wf_lex_prod wf_less_than)

lemma advance_scan_order:
  assumes "advance ht bucket entry = Inr (Some (bucket', entry'))"
  shows "((ht, bucket', entry'), (ht, bucket, entry)) \<in> scan_order"
proof (cases "entry + 1 = PerBucket ht")
  case True
  with assms obtain nxt where nb: "nextBucket ht bucket = Inr nxt" and "nxt \<noteq> 0"
    and "bucket' = nxt"
    by (auto simp: advance_def split: sum.splits if_splits)
  then have "bucket < bucket' \<and> bucket' < NumBuckets ht"
    using nextBucket_bounds by blast
  then have "unat bucket < unat bucket' \<and> unat bucket' < unat (NumBuckets ht)"
    by (simp add: word_less_nat_alt)
  then show ?thesis
    by (auto simp: scan_order_def)
next
  case False
  with assms have eq: "bucket' = bucket" "entry' = entry + 1"
    by (auto simp: advance_def)
  define d where "d = PerBucket ht - entry - 1"
  have "d \<noteq> 0"
    using False by (auto simp: d_def algebra_simps)
  then have "unat (d - 1) < unat d"
    by (simp add: unat_minus_one unat_gt_0)
  moreover have "PerBucket ht - entry' - 1 = d - 1"
    by (simp add: d_def eq)
  ultimately show ?thesis
    by (simp add: scan_order_def eq d_def)
qed

text \<open>
  \<open>Get\<close>. The key and the value of the entry are decoded before its flag is looked at.
  The three outcomes of the loop body are written as one chain of tests: the
  \<open>return\<close> at the limit, the \<open>return\<close> at an entry that is not valid and holds key 0
  and value 0, and otherwise the end of the body, after the \<open>append\<close> when the entry
  is valid, has the key and passes the filter. (\<open>filter\<close> is a list function in HOL, so
  the parameter is written \<open>filter'\<close>.)
\<close>

function Get_loop ::
  "HashTable \<Rightarrow> u64 \<Rightarrow> u64 \<Rightarrow> (u64 \<Rightarrow> u64 \<Rightarrow> bool) \<Rightarrow> u64 \<Rightarrow> u64 \<Rightarrow> u64
     \<Rightarrow> u64 list \<Rightarrow> u64 list \<Rightarrow> error + u64 list \<times> u64 list" where
  "Get_loop ht key limit filter' count entry bucket keys vals =
     (let entryAddr = bucket * BucketSize ht + BUCKET_HEADER_SIZE + entry * ENTRY_SIZE in
      case Uvarint (Buf (File ht)) (entryAddr + 1) (entryAddr + 11) of
        Inl e \<Rightarrow> Inl e
      | Inr entryKey \<Rightarrow>
      case Uvarint (Buf (File ht)) (entryAddr + 11) (entryAddr + 21) of
        Inl e \<Rightarrow> Inl e
      | Inr entryVal \<Rightarrow>
      case index (Buf (File ht)) entryAddr of
        Inl e \<Rightarrow> Inl e
      | Inr flag \<Rightarrow>
          (let hit = (flag = ENTRY_VALID \<and> entryKey = key \<and> filter' entryKey entryVal);
               keys1 = (if hit then keys @ [entryKey] else keys);
               vals1 = (if hit then vals @ [entryVal] else vals);
               count1 = (if hit then count + 1 else count)
           in if hit \<and> count1 = limit then Inr (keys1, vals1)
              else if flag \<noteq> ENTRY_VALID \<and> entryKey = 0 \<and> entryVal = 0 then Inr (keys1, vals1)
              else
                (case advance ht bucket entry of
                   Inl e \<Rightarrow> Inl e
                 | Inr None \<Rightarrow> Inr (keys1, vals1)
                 | Inr (Some (bucket1, entry1)) \<Rightarrow>
                     Get_loop ht key limit filter' count1 entry1 bucket1 keys1 vals1)))"
  by pat_completeness auto
termination
  by (relation "inv_image scan_order
        (\<lambda>(ht, key, limit, filter', count, entry, bucket, keys, vals). (ht, bucket, entry))")
     (auto simp: wf_scan_order advance_scan_order)

declare Get_loop.simps [simp del]

definition Get ::
  "HashTable \<Rightarrow> u64 \<Rightarrow> u64 \<Rightarrow> (u64 \<Rightarrow> u64 \<Rightarrow> bool) \<Rightarrow> error + u64 list \<times> u64 list" where
  "Get ht key limit filter' =
     (let bucket = hashKey ht key in
      if unat (bucket div HASH_TABLE_REGION_SIZE) < regionRWMutex ht
      then Get_loop ht key limit filter' 0 0 bucket [] []
      else Inl IndexOutOfRange)"

text \<open>
  \<open>Remove\<close>, with the outcomes of the loop body as one chain of tests: the entry that
  is valid and holds the key and the value gets the flag \<open>ENTRY_INVALID\<close>, an entry
  that is not valid and holds key 0 and value 0 ends the scan, anything else goes on.
\<close>

function Remove_loop :: "HashTable \<Rightarrow> u64 \<Rightarrow> u64 \<Rightarrow> u64 \<Rightarrow> u64 \<Rightarrow> error + HashTable" where
  "Remove_loop ht key val entry bucket =
     (let entryAddr = bucket * BucketSize ht + BUCKET_HEADER_SIZE + entry * ENTRY_SIZE in
      case Uvarint (Buf (File ht)) (entryAddr + 1) (entryAddr + 11) of
        Inl e \<Rightarrow> Inl e
      | Inr entryKey \<Rightarrow>
      case Uvarint (Buf (File ht)) (entryAddr + 11) (entryAddr + 21) of
        Inl e \<Rightarrow> Inl e
      | Inr entryVal \<Rightarrow>
      case index (Buf (File ht)) entryAddr of
        Inl e \<Rightarrow> Inl e
      | Inr flag \<Rightarrow>
          if flag = ENTRY_VALID \<and> entryKey = key \<and> entryVal = val then
            Inr (ht\<lparr>File := (File ht)\<lparr>Buf := (Buf (File ht))[unat entryAddr := ENTRY_INVALID]\<rparr>\<rparr>)
          else if flag \<noteq> ENTRY_VALID \<and> entryKey = 0 \<and> entryVal = 0 then Inr ht
          else
            (case advance ht bucket entry of
               Inl e \<Rightarrow> Inl e
             | Inr None \<Rightarrow> Inr ht
             | Inr (Some (bucket1, entry1)) \<Rightarrow> Remove_loop ht key val entry1 bucket1))"
  by pat_completeness auto
termination
  by (relation "inv_image scan_order (\<lambda>(ht, key, val, entry, bucket). (ht, bucket, entry))")
     (auto simp: wf_scan_order advance_scan_order)

declare Remove_loop.simps [simp del]

definition Remove :: "HashTable \<Rightarrow> u64 \<Rightarrow> u64 \<Rightarrow> error + HashTable" where
  "Remove ht key val =
     (let bucket = hashKey ht key in
      if unat (bucket div HASH_TABLE_REGION_SIZE) < regionRWMutex ht
      then Remove_loop ht key val 0 bucket
      else Inl IndexOutOfRange)"

text \<open>
  \<open>GetAll\<close>. The inner loop walks one chain; its result says whether \<open>GetAll\<close> returns
  (the limit is reached, or the chain ends after a full bucket) or the loop over the
  heads goes on (the \<open>break\<close> at an entry that is not valid and holds key 0 and value 0).
\<close>

function GetAll_chain ::
  "HashTable \<Rightarrow> u64 \<Rightarrow> u64 \<Rightarrow> u64 \<Rightarrow> u64 \<Rightarrow> u64 list \<Rightarrow> u64 list
     \<Rightarrow> error + bool \<times> u64 \<times> u64 list \<times> u64 list" where
  "GetAll_chain ht limit counter entry bucket keys vals =
     (let entryAddr = bucket * BucketSize ht + BUCKET_HEADER_SIZE + entry * ENTRY_SIZE in
      case Uvarint (Buf (File ht)) (entryAddr + 1) (entryAddr + 11) of
        Inl e \<Rightarrow> Inl e
      | Inr entryKey \<Rightarrow>
      case Uvarint (Buf (File ht)) (entryAddr + 11) (entryAddr + 21) of
        Inl e \<Rightarrow> Inl e
      | Inr entryVal \<Rightarrow>
      case index (Buf (File ht)) entryAddr of
        Inl e \<Rightarrow> Inl e
      | Inr flag \<Rightarrow>
          (let hit = (flag = ENTRY_VALID);
               keys1 = (if hit then keys @ [entryKey] else keys);
               vals1 = (if hit then vals @ [entryVal] else vals);
               counter1 = (if hit then counter + 1 else counter)
           in if hit \<and> counter1 = limit then Inr (True, counter1, keys1, vals1)
              else if \<not> hit \<and> entryKey = 0 \<and> entryVal = 0 then Inr (False, counter1, keys1, vals1)
              else
                (case advance ht bucket entry of
                   Inl e \<Rightarrow> Inl e
                 | Inr None \<Rightarrow> Inr (True, counter1, keys1, vals1)
                 | Inr (Some (bucket1, entry1)) \<Rightarrow>
                     GetAll_chain ht limit counter1 entry1 bucket1 keys1 vals1)))"
  by pat_completeness auto
termination
  by (relation "inv_image scan_order
        (\<lambda>(ht, limit, counter, entry, bucket, keys, vals). (ht, bucket, entry))")
     (auto simp: wf_scan_order advance_scan_order)

declare GetAll_chain.simps [simp del]

function GetAll_loop ::
  "HashTable \<Rightarrow> u64 \<Rightarrow> u64 \<Rightarrow> u64 \<Rightarrow> u64 list \<Rightarrow> u64 list \<Rightarrow> error + u64 list \<times> u64 list" where
  "GetAll_loop ht limit head counter keys vals =
     (if head < Pow2 (HashBits ht) then
        (if unat (head div HASH_TABLE_REGION_SIZE) < regionRWMutex ht then
           (case GetAll_chain ht limit counter 0 head keys vals of
              Inl e \<Rightarrow> Inl e
            | Inr (stop, counter1, keys1, vals1) \<Rightarrow>
                if stop then Inr (keys1, vals1)
                else GetAll_loop ht limit (head + 1) counter1 keys1 vals1)
         else Inl IndexOutOfRange)
      else Inr (keys, vals))"
  by pat_completeness auto
termination
proof (relation "measure (\<lambda>(ht, limit, head, counter, keys, vals).
                   unat (Pow2 (HashBits ht)) - unat head)")
  show "wf (measure (\<lambda>(ht, limit, head, counter, keys, vals).
                   unat (Pow2 (HashBits ht)) - unat head))"
    by simp
next
  fix ht :: HashTable and limit head counter :: u64 and keys vals :: "u64 list"
    and x2 :: "bool \<times> u64 \<times> u64 list \<times> u64 list" and x1 :: bool
    and y :: "u64 \<times> u64 list \<times> u64 list" and x1a :: u64 and ya :: "u64 list \<times> u64 list"
    and x1b x2a :: "u64 list"
  assume less: "head < Pow2 (HashBits ht)"
  then have "unat (head + 1) = unat head + 1"
    by (rule unat_plus_one)
  moreover have "unat head < unat (Pow2 (HashBits ht))"
    using less by (simp add: word_less_nat_alt)
  ultimately show "((ht, limit, head + 1, x1a, x1b, x2a), (ht, limit, head, counter, keys, vals))
      \<in> measure (\<lambda>(ht, limit, head, counter, keys, vals).
                   unat (Pow2 (HashBits ht)) - unat head)"
    by auto
qed

declare GetAll_loop.simps [simp del]

definition GetAll :: "HashTable \<Rightarrow> u64 \<Rightarrow> error + u64 list \<times> u64 list" where
  "GetAll ht limit = GetAll_loop ht limit 0 0 [] []"

section \<open>Observations and the tables of the scenarios\<close>

text \<open>
  The flag, the key and the value of entry \<open>entry\<close> of bucket \<open>bucket\<close>, at the address
  and with the reads of the loops of \<open>Get\<close> and \<open>Remove\<close>.
\<close>

definition entryAt :: "HashTable \<Rightarrow> u64 \<Rightarrow> u64 \<Rightarrow> error + byte \<times> u64 \<times> u64" where
  "entryAt ht bucket entry =
     (let entryAddr = bucket * BucketSize ht + BUCKET_HEADER_SIZE + entry * ENTRY_SIZE in
      case Uvarint (Buf (File ht)) (entryAddr + 1) (entryAddr + 11) of
        Inl e \<Rightarrow> Inl e
      | Inr entryKey \<Rightarrow>
      case Uvarint (Buf (File ht)) (entryAddr + 11) (entryAddr + 21) of
        Inl e \<Rightarrow> Inl e
      | Inr entryVal \<Rightarrow>
      case index (Buf (File ht)) entryAddr of
        Inl e \<Rightarrow> Inl e
      | Inr flag \<Rightarrow> Inr (flag, entryKey, entryVal))"

text \<open>The filter that accepts every pair.\<close>

definition always_true :: "u64 \<Rightarrow> u64 \<Rightarrow> bool" where
  "always_true k v = True"

text \<open>
  A table with \<open>hashBits = 4\<close> and \<open>perBucket = 2\<close> over a file of 1 MiB with the given
  bytes, \<open>n\<close> buckets and 65 locks.
\<close>

definition table_4_2 :: "string \<Rightarrow> u64 \<Rightarrow> byte list \<Rightarrow> HashTable" where
  "table_4_2 name n bytes =
     \<lparr>File = \<lparr>Name = name, UsedSize = n * 52, Size = 1048576, Growth = 1048576, Buf = bytes\<rparr>,
      BucketSize = 52, HashBits = 4, PerBucket = 2, NumBuckets = n, InitialBuckets = 16,
      regionRWMutex = 65\<rparr>"

text \<open>The bytes of the file: after it is created, and after each \<open>Put\<close> of scenario 2.\<close>

definition bytes_fresh :: "byte list" where
  "bytes_fresh = replicate 1048576 0"

definition bytes_put1 :: "byte list" where
  "bytes_put1 = bytes_fresh[10 := 1, 11 := 0, 21 := 100]"

definition bytes_put2 :: "byte list" where
  "bytes_put2 = bytes_put1[31 := 1, 32 := 16, 42 := 200, 43 := 1]"

definition bytes_grown :: "byte list" where
  "bytes_grown = bytes_put2[0 := 16]"

definition bytes_put3 :: "byte list" where
  "bytes_put3 = bytes_grown[842 := 1, 843 := 32, 853 := 172, 854 := 2]"

section \<open>Evaluation\<close>

lemma not_128_le_1: "((128 :: u64) \<le> 1) = False"
  by (simp add: word_le_nat_alt)

lemma byte_428: "(428 :: byte) = 172"
  by simp

lemmas const_defs = FILE_GROWTH_INCREMENTAL_def HASH_TABLE_GROWTH_def ENTRY_VALID_def
  ENTRY_INVALID_def ENTRY_SIZE_def BUCKET_HEADER_SIZE_def HASH_TABLE_REGION_SIZE_def

lemmas eval_defs = const_defs index_def sliceOK_def Uvarint_def PutUvarint_def
  Uvarint_loop.simps PutUvarint_loop.simps CheckSize_def CheckSizeAndEnsure_loop.simps
  CheckSizeAndEnsure.simps Open_loop.simps Open_def hashKey_def nextBucket_def lastBucket.simps
  grow_def OpenHash_loop.simps OpenHash_def Put_loop.simps Put_def advance_def Get_loop.simps
  Get_def Remove_loop.simps Remove_def entryAt_def always_true_def Pow2_def Let_def not_128_le_1
  byte_428

lemmas scenario_defs = table_4_2_def bytes_fresh_def bytes_put1_def bytes_put2_def
  bytes_grown_def bytes_put3_def

lemma OpenHash_fresh_eval:
  "OpenHash name None 4 2 = Some (Inr (table_4_2 name 16 bytes_fresh))"
  by (simp add: eval_defs scenario_defs)

lemma Put1_eval:
  "Put (table_4_2 name 16 bytes_fresh) 0 100 = Some (Inr (table_4_2 name 16 bytes_put1))"
  by (simp add: eval_defs scenario_defs)

lemma Put2_eval:
  "Put (table_4_2 name 16 bytes_put1) 16 200 = Some (Inr (table_4_2 name 16 bytes_put2))"
  by (simp add: eval_defs scenario_defs)

lemma grow_eval:
  "grow (table_4_2 name 16 bytes_put2) 0 = Some (Inr (table_4_2 name 17 bytes_grown))"
  by (simp add: eval_defs scenario_defs)

lemma Put3_eval:
  "Put (table_4_2 name 16 bytes_put2) 32 300 = Some (Inr (table_4_2 name 17 bytes_put3))"
  by (simp add: eval_defs scenario_defs)

lemma Put3_grown_eval:
  "Put (table_4_2 name 17 bytes_grown) 32 300 = Some (Inr (table_4_2 name 17 bytes_put3))"
  by (simp add: eval_defs scenario_defs)

lemma entries_put2_eval:
  "entryAt (table_4_2 name 16 bytes_put2) 0 0 = Inr (ENTRY_VALID, 0, 100)
   \<and> entryAt (table_4_2 name 16 bytes_put2) 0 1 = Inr (ENTRY_VALID, 16, 200)
   \<and> nextBucket (table_4_2 name 16 bytes_put2) 0 = Inr 0"
  by (simp add: eval_defs scenario_defs)

lemma entries_put3_eval:
  "Uvarint bytes_grown 0 10 = Inr 16
   \<and> nextBucket (table_4_2 name 17 bytes_put3) 0 = Inr 16
   \<and> nextBucket (table_4_2 name 17 bytes_put3) 16 = Inr 0
   \<and> entryAt (table_4_2 name 17 bytes_put3) 0 0 = Inr (ENTRY_VALID, 0, 100)
   \<and> entryAt (table_4_2 name 17 bytes_put3) 0 1 = Inr (ENTRY_VALID, 16, 200)
   \<and> entryAt (table_4_2 name 17 bytes_put3) 16 0 = Inr (ENTRY_VALID, 32, 300)
   \<and> entryAt (table_4_2 name 17 bytes_put3) 16 1 = Inr (ENTRY_INVALID, 0, 0)"
  by (simp add: eval_defs scenario_defs)

lemma OpenHash_reopen_eval:
  "OpenHash name (Some bytes_put3) 4 2 = Some (Inr (table_4_2 name 17 bytes_put3))"
  by (simp add: eval_defs scenario_defs)

lemma Get_put3_eval:
  "Get (table_4_2 name 17 bytes_put3) 0 0 always_true = Inr ([0], [100])
   \<and> Get (table_4_2 name 17 bytes_put3) 16 0 always_true = Inr ([16], [200])
   \<and> Get (table_4_2 name 17 bytes_put3) 32 0 always_true = Inr ([32], [300])"
  by (simp add: eval_defs scenario_defs)

section \<open>Opening a new file\<close>

text \<open>
  C7: \<open>OpenHash\<close> on a file that does not exist, with \<open>hashBits = 4\<close> and
  \<open>perBucket = 2\<close>, returns a table over a file of exactly 1048576 bytes (1 MiB, one
  growth increment), all of them zero, with \<open>BucketSize = 10 + 21 * 2 = 52\<close>,
  \<open>NumBuckets = 16\<close> and \<open>UsedSize = 16 * 52 = 832\<close>.
\<close>

theorem OpenHash_new_file:
  "\<exists>ht. OpenHash name None 4 2 = Some (Inr ht)
     \<and> length (Buf (File ht)) = 1048576
     \<and> Buf (File ht) = replicate 1048576 0
     \<and> Size (File ht) = 1048576
     \<and> Size (File ht) = HASH_TABLE_GROWTH
     \<and> BucketSize ht = 10 + 21 * 2
     \<and> BucketSize ht = 52
     \<and> InitialBuckets ht = 2 ^ 4
     \<and> NumBuckets ht = 16
     \<and> UsedSize (File ht) = 16 * 52
     \<and> UsedSize (File ht) = 832"
  by (simp add: OpenHash_fresh_eval table_4_2_def bytes_fresh_def HASH_TABLE_GROWTH_def)

section \<open>Scenario 2: three keys of one head bucket\<close>

text \<open>
  C3: on the table that \<open>OpenHash\<close> returns for a new file with \<open>hashBits = 4\<close> and
  \<open>perBucket = 2\<close>, \<open>Put(0,100)\<close> and \<open>Put(16,200)\<close> fill the two entries of head
  bucket 0 with (0,100) and (16,200), and the chain of bucket 0 ends there. The third
  call, \<open>Put(32,300)\<close>, gives what \<open>grow(0)\<close> followed by the same \<open>Put\<close> gives:
  \<open>grow(0)\<close> takes the number of buckets from 16 to 17 and writes 16 into the header
  of head bucket 0, and the pair (32,300) is entry 0 of bucket 16, whose own chain ends.
\<close>

theorem scenario2_three_puts:
  "OpenHash name None 4 2 = Some (Inr (table_4_2 name 16 bytes_fresh))
   \<and> Put (table_4_2 name 16 bytes_fresh) 0 100 = Some (Inr (table_4_2 name 16 bytes_put1))
   \<and> Put (table_4_2 name 16 bytes_put1) 16 200 = Some (Inr (table_4_2 name 16 bytes_put2))
   \<and> PerBucket (table_4_2 name 16 bytes_put2) = 2
   \<and> entryAt (table_4_2 name 16 bytes_put2) 0 0 = Inr (ENTRY_VALID, 0, 100)
   \<and> entryAt (table_4_2 name 16 bytes_put2) 0 1 = Inr (ENTRY_VALID, 16, 200)
   \<and> nextBucket (table_4_2 name 16 bytes_put2) 0 = Inr 0
   \<and> hashKey (table_4_2 name 16 bytes_put2) 32 = 0
   \<and> grow (table_4_2 name 16 bytes_put2) 0 = Some (Inr (table_4_2 name 17 bytes_grown))
   \<and> NumBuckets (table_4_2 name 16 bytes_put2) = 16
   \<and> NumBuckets (table_4_2 name 17 bytes_grown) = 17
   \<and> Uvarint bytes_grown 0 10 = Inr 16
   \<and> Put (table_4_2 name 16 bytes_put2) 32 300 = Put (table_4_2 name 17 bytes_grown) 32 300
   \<and> Put (table_4_2 name 16 bytes_put2) 32 300 = Some (Inr (table_4_2 name 17 bytes_put3))
   \<and> nextBucket (table_4_2 name 17 bytes_put3) 0 = Inr 16
   \<and> nextBucket (table_4_2 name 17 bytes_put3) 16 = Inr 0
   \<and> entryAt (table_4_2 name 17 bytes_put3) 0 0 = Inr (ENTRY_VALID, 0, 100)
   \<and> entryAt (table_4_2 name 17 bytes_put3) 0 1 = Inr (ENTRY_VALID, 16, 200)
   \<and> entryAt (table_4_2 name 17 bytes_put3) 16 0 = Inr (ENTRY_VALID, 32, 300)
   \<and> NumBuckets (table_4_2 name 17 bytes_put3) = 17"
  using entries_put2_eval [of name] entries_put3_eval [of name]
  by (simp add: OpenHash_fresh_eval Put1_eval Put2_eval grow_eval Put3_eval Put3_grown_eval)
    (simp add: table_4_2_def hashKey_def)

section \<open>Scenario 6: opening the file of scenario 2 again\<close>

text \<open>
  C2, as the claim states it, fails: on the table that \<open>OpenHash\<close> returns for the file
  of scenario 2, \<open>Get(0, 0, always-true)\<close> returns the single pair (0,100), not the three
  pairs (0,100), (16,200), (32,300). \<open>Get\<close> keeps an entry only when the stored key
  equals the key asked for; 16 and 32 share the head bucket of 0 but are other keys.
\<close>

theorem reopen_Get_0_three_pairs_counterexample:
  "OpenHash ''t'' None 4 2 = Some (Inr (table_4_2 ''t'' 16 bytes_fresh))
   \<and> Put (table_4_2 ''t'' 16 bytes_fresh) 0 100 = Some (Inr (table_4_2 ''t'' 16 bytes_put1))
   \<and> Put (table_4_2 ''t'' 16 bytes_put1) 16 200 = Some (Inr (table_4_2 ''t'' 16 bytes_put2))
   \<and> Put (table_4_2 ''t'' 16 bytes_put2) 32 300 = Some (Inr (table_4_2 ''t'' 17 bytes_put3))
   \<and> OpenHash ''t'' (Some (Buf (File (table_4_2 ''t'' 17 bytes_put3)))) 4 2
        = Some (Inr (table_4_2 ''t'' 17 bytes_put3))
   \<and> Get (table_4_2 ''t'' 17 bytes_put3) 0 0 always_true = Inr ([0], [100])
   \<and> Get (table_4_2 ''t'' 17 bytes_put3) 0 0 always_true \<noteq> Inr ([0, 16, 32], [100, 200, 300])"
  using Get_put3_eval [of "''t''"]
  by (simp add: OpenHash_fresh_eval Put1_eval Put2_eval Put3_eval)
    (simp add: table_4_2_def OpenHash_reopen_eval [unfolded table_4_2_def])

text \<open>
  C2, amended: \<open>OpenHash\<close> with \<open>hashBits = 4\<close> and \<open>perBucket = 2\<close> on the file that
  the three calls of scenario 2 leave recovers \<open>NumBuckets = 17\<close> and
  \<open>UsedSize = 17 * 52 = 884\<close>, in fact the very table that the three calls left, and on
  it each of the three pairs is returned by \<open>Get\<close> for its own key:
  \<open>Get(0, 0, always-true)\<close> returns (0,100) alone, \<open>Get(16, 0, always-true)\<close> returns
  (16,200) and \<open>Get(32, 0, always-true)\<close> returns (32,300).
\<close>

theorem reopen_scenario2:
  "OpenHash name None 4 2 = Some (Inr (table_4_2 name 16 bytes_fresh))
   \<and> Put (table_4_2 name 16 bytes_fresh) 0 100 = Some (Inr (table_4_2 name 16 bytes_put1))
   \<and> Put (table_4_2 name 16 bytes_put1) 16 200 = Some (Inr (table_4_2 name 16 bytes_put2))
   \<and> Put (table_4_2 name 16 bytes_put2) 32 300 = Some (Inr (table_4_2 name 17 bytes_put3))
   \<and> OpenHash name (Some (Buf (File (table_4_2 name 17 bytes_put3)))) 4 2
        = Some (Inr (table_4_2 name 17 bytes_put3))
   \<and> NumBuckets (table_4_2 name 17 bytes_put3) = 17
   \<and> UsedSize (File (table_4_2 name 17 bytes_put3)) = 17 * 52
   \<and> UsedSize (File (table_4_2 name 17 bytes_put3)) = 884
   \<and> Get (table_4_2 name 17 bytes_put3) 0 0 always_true = Inr ([0], [100])
   \<and> Get (table_4_2 name 17 bytes_put3) 16 0 always_true = Inr ([16], [200])
   \<and> Get (table_4_2 name 17 bytes_put3) 32 0 always_true = Inr ([32], [300])"
  using Get_put3_eval [of name]
  by (simp add: OpenHash_fresh_eval Put1_eval Put2_eval Put3_eval)
    (simp add: table_4_2_def OpenHash_reopen_eval [unfolded table_4_2_def])

section \<open>What growing the file changes\<close>

text \<open>\<open>new\<close> is \<open>old\<close> followed by zero bytes.\<close>

definition appended_zeros :: "byte list \<Rightarrow> byte list \<Rightarrow> bool" where
  "appended_zeros old new = (\<exists>n. new = old @ replicate n 0)"

lemma appended_zeros_refl: "appended_zeros bs bs"
  unfolding appended_zeros_def by (rule exI [of _ 0]) simp

lemma appended_zeros_trans:
  "appended_zeros a b \<Longrightarrow> appended_zeros b c \<Longrightarrow> appended_zeros a c"
  unfolding appended_zeros_def by (metis append.assoc replicate_add)

lemma appended_zeros_step:
  "appended_zeros (bs @ replicate n 0) cs \<Longrightarrow> appended_zeros bs cs"
  unfolding appended_zeros_def by (metis append.assoc replicate_add)

lemma CheckSizeAndEnsure_loop_appends_aux:
  assumes "CheckSizeAndEnsure_loop i g fh = Some y"
  shows "case y of Inl e \<Rightarrow> True | Inr fh' \<Rightarrow> appended_zeros fh fh'"
proof (rule CheckSizeAndEnsure_loop.raw_induct
    [where P = "\<lambda>i g fh y. case y of Inl e \<Rightarrow> True | Inr fh' \<Rightarrow> appended_zeros fh fh'",
      OF _ assms])
  fix loop :: "u64 \<Rightarrow> u64 \<Rightarrow> byte list \<Rightarrow> (error + byte list) option"
    and i g :: u64 and fh :: "byte list" and y :: "error + byte list"
  assume IH: "\<And>i g fh y. loop i g fh = Some y
      \<Longrightarrow> case y of Inl e \<Rightarrow> True | Inr fh' \<Rightarrow> appended_zeros fh fh'"
    and body: "(if i < g then
        (if i + FILE_GROWTH_INCREMENTAL > g then
           (let hi = i + FILE_GROWTH_INCREMENTAL - g in
            if hi \<le> FILE_GROWTH_INCREMENTAL
            then loop (i + FILE_GROWTH_INCREMENTAL) g (fh @ replicate (unat hi) 0)
            else Some (Inl SliceBoundsOutOfRange))
         else loop (i + FILE_GROWTH_INCREMENTAL) g
                (fh @ replicate (unat FILE_GROWTH_INCREMENTAL) 0))
      else Some (Inr fh)) = Some y"
  show "case y of Inl e \<Rightarrow> True | Inr fh' \<Rightarrow> appended_zeros fh fh'"
  proof (cases "i < g")
    case False
    with body show ?thesis by (auto simp: appended_zeros_refl)
  next
    case True
    note lt = this
    show ?thesis
    proof (cases "i + FILE_GROWTH_INCREMENTAL > g")
      case False
      with lt body have "loop (i + FILE_GROWTH_INCREMENTAL) g (fh @ replicate (unat FILE_GROWTH_INCREMENTAL) 0) = Some y"
        by simp
      from IH [OF this] show ?thesis
        by (cases y) (auto intro: appended_zeros_step)
    next
      case True
      show ?thesis
      proof (cases "i + FILE_GROWTH_INCREMENTAL - g \<le> FILE_GROWTH_INCREMENTAL")
        case False
        with lt True body show ?thesis by (auto simp: Let_def)
      next
        case le: True
        with lt True body have "loop (i + FILE_GROWTH_INCREMENTAL) g (fh @ replicate (unat (i + FILE_GROWTH_INCREMENTAL - g)) 0) = Some y"
          by (simp add: Let_def)
        from IH [OF this] show ?thesis
          by (cases y) (auto intro: appended_zeros_step)
      qed
    qed
  qed
qed

lemma CheckSizeAndEnsure_loop_appends:
  "CheckSizeAndEnsure_loop i g fh = Some (Inr fh') \<Longrightarrow> appended_zeros fh fh'"
  using CheckSizeAndEnsure_loop_appends_aux by fastforce

lemma CheckSizeAndEnsure_frame_aux:
  assumes "CheckSizeAndEnsure f m = Some y"
  shows "case y of Inl e \<Rightarrow> True
         | Inr f' \<Rightarrow> UsedSize f' = UsedSize f \<and> Growth f' = Growth f
             \<and> Name f' = Name f \<and> appended_zeros (Buf f) (Buf f')
             \<and> UsedSize f + m \<le> Size f'"
proof (rule CheckSizeAndEnsure.raw_induct
    [where P = "\<lambda>f m y. case y of Inl e \<Rightarrow> True
         | Inr f' \<Rightarrow> UsedSize f' = UsedSize f \<and> Growth f' = Growth f
             \<and> Name f' = Name f \<and> appended_zeros (Buf f) (Buf f')
             \<and> UsedSize f + m \<le> Size f'", OF _ assms])
  fix rec :: "File \<Rightarrow> u64 \<Rightarrow> (error + File) option"
    and f :: File and m :: u64 and y :: "error + File"
  assume IH: "\<And>f m y. rec f m = Some y \<Longrightarrow> case y of Inl e \<Rightarrow> True
         | Inr f' \<Rightarrow> UsedSize f' = UsedSize f \<and> Growth f' = Growth f
             \<and> Name f' = Name f \<and> appended_zeros (Buf f) (Buf f')
             \<and> UsedSize f + m \<le> Size f'"
    and body: "(if UsedSize f + m \<le> Size f then Some (Inr f)
      else
        (case CheckSizeAndEnsure_loop 0 (Growth f) (Buf f) of
           None \<Rightarrow> None
         | Some (Inl e) \<Rightarrow> Some (Inl e)
         | Some (Inr fh) \<Rightarrow>
             rec (f\<lparr>Buf := fh, Size := Size f + Growth f\<rparr>) m)) = Some y"
  show "case y of Inl e \<Rightarrow> True
         | Inr f' \<Rightarrow> UsedSize f' = UsedSize f \<and> Growth f' = Growth f
             \<and> Name f' = Name f \<and> appended_zeros (Buf f) (Buf f')
             \<and> UsedSize f + m \<le> Size f'"
  proof (cases "UsedSize f + m \<le> Size f")
    case True
    with body show ?thesis by (auto simp: appended_zeros_refl)
  next
    case False
    show ?thesis
    proof (cases y)
      case (Inl e)
      then show ?thesis by simp
    next
      case (Inr f')
      with False body obtain fh where
        loop: "CheckSizeAndEnsure_loop 0 (Growth f) (Buf f) = Some (Inr fh)"
        and rec: "rec (f\<lparr>Buf := fh, Size := Size f + Growth f\<rparr>) m = Some (Inr f')"
        by (auto split: option.splits sum.splits)
      from IH [OF rec] CheckSizeAndEnsure_loop_appends [OF loop] Inr show ?thesis
        by (auto intro: appended_zeros_trans)
    qed
  qed
qed

lemma CheckSizeAndEnsure_frame:
  assumes "CheckSizeAndEnsure f m = Some (Inr f')"
  shows "UsedSize f' = UsedSize f" "Growth f' = Growth f" "Name f' = Name f"
    "appended_zeros (Buf f) (Buf f')" "UsedSize f + m \<le> Size f'"
  using CheckSizeAndEnsure_frame_aux [OF assms] by auto

section \<open>The number of buckets and the used size\<close>

text \<open>The invariant: the buckets fill the used part of the file exactly (in \<open>uint64\<close>).\<close>

definition used_size_invariant :: "HashTable \<Rightarrow> bool" where
  "used_size_invariant ht = (NumBuckets ht * BucketSize ht = UsedSize (File ht))"

lemma OpenHash_used_size:
  assumes "OpenHash name disk hashBits perBucket = Some (Inr ht)"
  shows "used_size_invariant ht"
  using assms
  by (auto simp: OpenHash_def Let_def used_size_invariant_def
      split: if_splits option.splits sum.splits)

lemma grow_fields:
  assumes "grow ht bucket = Some (Inr ht')"
  shows "UsedSize (File ht') = UsedSize (File ht) + BucketSize ht"
    and "NumBuckets ht' = NumBuckets ht + 1"
    and "BucketSize ht' = BucketSize ht"
    and "PerBucket ht' = PerBucket ht"
    and "HashBits ht' = HashBits ht"
    and "InitialBuckets ht' = InitialBuckets ht"
    and "regionRWMutex ht \<le> regionRWMutex ht'"
  using assms
  by (auto simp: grow_def Let_def split: if_splits option.splits sum.splits
      dest: CheckSizeAndEnsure_frame(1))

definition grown_by :: "HashTable \<Rightarrow> HashTable \<Rightarrow> u64 \<Rightarrow> bool" where
  "grown_by ht ht' n =
     (BucketSize ht' = BucketSize ht
      \<and> NumBuckets ht' = NumBuckets ht + n
      \<and> UsedSize (File ht') = UsedSize (File ht) + n * BucketSize ht)"

definition Put_post :: "HashTable \<Rightarrow> error + HashTable \<Rightarrow> bool" where
  "Put_post ht y = (case y of Inl e \<Rightarrow> True | Inr ht' \<Rightarrow> \<exists>n. grown_by ht ht' n)"

lemma Put_post_Inl [simp]: "Put_post ht (Inl e)"
  by (simp add: Put_post_def)

lemma Put_post_write [simp]: "Put_post ht (Inr (ht\<lparr>File := (File ht)\<lparr>Buf := buf\<rparr>\<rparr>))"
  unfolding Put_post_def by (auto simp: grown_by_def intro: exI [of _ 0])

lemma Put_post_grow:
  assumes "grow ht bucket = Some (Inr ht1)" and "Put_post ht1 y"
  shows "Put_post ht y"
proof (cases y)
  case (Inl e)
  then show ?thesis by simp
next
  case (Inr ht2)
  with assms(2) obtain n where "grown_by ht1 ht2 n"
    by (auto simp: Put_post_def)
  with grow_fields(1-3) [OF assms(1)] have "grown_by ht ht2 (n + 1)"
    by (simp add: grown_by_def algebra_simps)
  with Inr show ?thesis
    by (auto simp: Put_post_def)
qed

lemma Put_loop_post:
  "Put_loop ht key val bucket entry = Some y \<Longrightarrow> Put_post ht y"
  apply (erule Put_loop.raw_induct [rotated -1,
        where P = "\<lambda>ht key val bucket entry y. Put_post ht y"])
  apply (atomize (full))
  apply (intro allI impI)
  apply (simp only: Let_def split: sum.splits if_splits option.splits)
  apply (auto intro: Put_post_grow)
  done

lemma Put_grown:
  assumes "Put ht key val = Some (Inr ht')"
  shows "\<exists>n. grown_by ht ht' n"
  using assms Put_loop_post [of ht key val "hashKey ht key" 0 "Inr ht'"]
  by (simp add: Put_def Let_def Put_post_def split: if_splits)

definition Remove_post :: "HashTable \<Rightarrow> error + HashTable \<Rightarrow> bool" where
  "Remove_post ht y =
     (case y of Inl e \<Rightarrow> True | Inr ht' \<Rightarrow> \<exists>buf. ht' = ht\<lparr>File := (File ht)\<lparr>Buf := buf\<rparr>\<rparr>)"

lemma Remove_post_Inl [simp]: "Remove_post ht (Inl e)"
  by (simp add: Remove_post_def)

lemma Remove_post_write [simp]: "Remove_post ht (Inr (ht\<lparr>File := (File ht)\<lparr>Buf := buf\<rparr>\<rparr>))"
  unfolding Remove_post_def by auto

lemma Remove_post_same [simp]: "Remove_post ht (Inr ht)"
  unfolding Remove_post_def by (auto intro: exI [of _ "Buf (File ht)"])

lemma Remove_loop_post: "Remove_post ht (Remove_loop ht key val entry bucket)"
proof (induction ht key val entry bucket rule: Remove_loop.induct)
  case (1 ht key val entry bucket)
  show ?case
    using 1
    apply (subst Remove_loop.simps)
    apply (auto simp: Let_def split: sum.splits option.splits)
    done
qed

lemma Remove_fields:
  assumes "Remove ht key val = Inr ht'"
  shows "\<exists>buf. ht' = ht\<lparr>File := (File ht)\<lparr>Buf := buf\<rparr>\<rparr>"
  using assms Remove_loop_post [of ht key val 0 "hashKey ht key"]
  by (simp add: Remove_def Let_def Remove_post_def split: if_splits)

lemma grown_by_invariant:
  assumes "grown_by ht ht' n" and "used_size_invariant ht"
  shows "used_size_invariant ht'"
  using assms by (simp add: grown_by_def used_size_invariant_def algebra_simps)

lemma Remove_scenario_eval:
  "Remove (table_4_2 name 16 bytes_put2) 16 200 = Inr (table_4_2 name 16 (bytes_put2[31 := 0]))"
  by (simp add: eval_defs scenario_defs)

text \<open>
  C5: the table that \<open>OpenHash\<close> returns satisfies
  \<open>NumBuckets * BucketSize = UsedSize\<close>. \<open>grow\<close> adds exactly \<open>BucketSize\<close> to
  \<open>UsedSize\<close> and 1 to \<open>NumBuckets\<close> and leaves \<open>BucketSize\<close> alone. \<open>Put\<close> changes the
  two fields only by such steps: it adds some \<open>n\<close> to \<open>NumBuckets\<close> and \<open>n * BucketSize\<close>
  to \<open>UsedSize\<close>. \<open>Remove\<close> changes nothing but bytes of \<open>Buf\<close>. So each of them
  keeps the invariant. \<open>Get\<close> and \<open>GetAll\<close> assign no field of the table in the source
  and return only their two lists, here as there.
\<close>

theorem used_size_invariant_kept:
  "(OpenHash name disk hashBits perBucket = Some (Inr ht0) \<longrightarrow> used_size_invariant ht0)
   \<and> (grow ht bucket = Some (Inr ht1) \<longrightarrow>
        UsedSize (File ht1) = UsedSize (File ht) + BucketSize ht
        \<and> NumBuckets ht1 = NumBuckets ht + 1
        \<and> BucketSize ht1 = BucketSize ht
        \<and> (used_size_invariant ht \<longrightarrow> used_size_invariant ht1))
   \<and> (Put ht key val = Some (Inr ht2) \<longrightarrow>
        (\<exists>n. BucketSize ht2 = BucketSize ht
            \<and> NumBuckets ht2 = NumBuckets ht + n
            \<and> UsedSize (File ht2) = UsedSize (File ht) + n * BucketSize ht)
        \<and> (used_size_invariant ht \<longrightarrow> used_size_invariant ht2))
   \<and> (Remove ht key val = Inr ht3 \<longrightarrow>
        NumBuckets ht3 = NumBuckets ht
        \<and> UsedSize (File ht3) = UsedSize (File ht)
        \<and> BucketSize ht3 = BucketSize ht
        \<and> (used_size_invariant ht \<longrightarrow> used_size_invariant ht3))"
proof (intro conjI impI)
  assume "OpenHash name disk hashBits perBucket = Some (Inr ht0)"
  then show "used_size_invariant ht0"
    by (rule OpenHash_used_size)
next
  assume g: "grow ht bucket = Some (Inr ht1)"
  show "UsedSize (File ht1) = UsedSize (File ht) + BucketSize ht"
    and "NumBuckets ht1 = NumBuckets ht + 1"
    and "BucketSize ht1 = BucketSize ht"
    using grow_fields [OF g] by simp_all
  assume "used_size_invariant ht"
  then show "used_size_invariant ht1"
    using grow_fields(1-3) [OF g] by (simp add: used_size_invariant_def algebra_simps)
next
  assume p: "Put ht key val = Some (Inr ht2)"
  from Put_grown [OF p] show "\<exists>n. BucketSize ht2 = BucketSize ht
            \<and> NumBuckets ht2 = NumBuckets ht + n
            \<and> UsedSize (File ht2) = UsedSize (File ht) + n * BucketSize ht"
    by (simp add: grown_by_def)
  assume "used_size_invariant ht"
  with Put_grown [OF p] show "used_size_invariant ht2"
    by (auto intro: grown_by_invariant)
next
  assume r: "Remove ht key val = Inr ht3"
  from Remove_fields [OF r] show "NumBuckets ht3 = NumBuckets ht"
    and "UsedSize (File ht3) = UsedSize (File ht)"
    and "BucketSize ht3 = BucketSize ht"
    by auto
  assume "used_size_invariant ht"
  with Remove_fields [OF r] show "used_size_invariant ht3"
    by (auto simp: used_size_invariant_def)
qed

theorem used_size_invariant_kept_witness:
  "OpenHash ''t'' None 4 2 = Some (Inr (table_4_2 ''t'' 16 bytes_fresh))
   \<and> used_size_invariant (table_4_2 ''t'' 16 bytes_fresh)
   \<and> used_size_invariant (table_4_2 ''t'' 16 bytes_put2)
   \<and> grow (table_4_2 ''t'' 16 bytes_put2) 0 = Some (Inr (table_4_2 ''t'' 17 bytes_grown))
   \<and> used_size_invariant (table_4_2 ''t'' 17 bytes_grown)
   \<and> Put (table_4_2 ''t'' 16 bytes_put2) 32 300 = Some (Inr (table_4_2 ''t'' 17 bytes_put3))
   \<and> used_size_invariant (table_4_2 ''t'' 17 bytes_put3)
   \<and> Remove (table_4_2 ''t'' 16 bytes_put2) 16 200
        = Inr (table_4_2 ''t'' 16 (bytes_put2[31 := 0]))
   \<and> used_size_invariant (table_4_2 ''t'' 16 (bytes_put2[31 := 0]))"
proof -
  have inv: "used_size_invariant (table_4_2 ''t'' 16 bytes_put2)"
    by (simp add: used_size_invariant_def table_4_2_def)
  from used_size_invariant_kept [where name = "''t''" and disk = None and hashBits = 4
      and perBucket = 2 and ?ht0.0 = "table_4_2 ''t'' 16 bytes_fresh"
      and ht = "table_4_2 ''t'' 16 bytes_put2" and bucket = 0
      and ?ht1.0 = "table_4_2 ''t'' 17 bytes_grown" and key = 32 and val = 300
      and ?ht2.0 = "table_4_2 ''t'' 17 bytes_put3"]
    used_size_invariant_kept [where ht = "table_4_2 ''t'' 16 bytes_put2" and key = 16
      and val = 200 and ?ht3.0 = "table_4_2 ''t'' 16 (bytes_put2[31 := 0])"]
  show ?thesis
    using inv by (simp add: OpenHash_fresh_eval grow_eval Put3_eval Remove_scenario_eval)
qed

section \<open>The chain discipline\<close>

lemma very_short_file_eval:
  "nextBucket (table_4_2 ''t'' 16 [0, 0, 0]) 0 = Inl SliceBoundsOutOfRange"
  by (simp add: eval_defs scenario_defs)

text \<open>
  C6: when the header of bucket \<open>b\<close>, the 10 bytes at \<open>b * BucketSize\<close>, decodes to
  \<open>next\<close>, \<open>nextBucket(b)\<close> returns 0 if \<open>next\<close> is 0, 0 if \<open>next \<le> b\<close>, 0 if
  \<open>next \<ge> NumBuckets\<close> or \<open>next < InitialBuckets\<close>, and \<open>next\<close> otherwise; this holds
  for every \<open>b\<close>, also where the code returns 0 before it reads (\<open>b \<ge> NumBuckets\<close>). No bad
  value of \<open>next\<close> is reported: the only failure is the panic of the slice expression
  when the 10 bytes of the header of a bucket below \<open>NumBuckets\<close> do not lie in \<open>Buf\<close>.
\<close>

theorem nextBucket_validates:
  "(Uvarint (Buf (File ht)) (b * BucketSize ht) (b * BucketSize ht + BUCKET_HEADER_SIZE) = Inr next
      \<longrightarrow> nextBucket ht b =
            Inr (if next = 0 then 0
                 else if next \<le> b then 0
                 else if next \<ge> NumBuckets ht \<or> next < InitialBuckets ht then 0
                 else next))
   \<and> (nextBucket ht b = Inl e
      \<longrightarrow> e = SliceBoundsOutOfRange \<and> b < NumBuckets ht
          \<and> \<not> sliceOK (Buf (File ht)) (b * BucketSize ht) (b * BucketSize ht + BUCKET_HEADER_SIZE))"
  by (auto simp: nextBucket_def Let_def Uvarint_def not_le split: if_splits)

theorem nextBucket_validates_witness:
  "Uvarint (Buf (File (table_4_2 ''t'' 17 bytes_put3))) (0 * BucketSize (table_4_2 ''t'' 17 bytes_put3))
      (0 * BucketSize (table_4_2 ''t'' 17 bytes_put3) + BUCKET_HEADER_SIZE) = Inr 16
   \<and> nextBucket (table_4_2 ''t'' 17 bytes_put3) 0 = Inr 16
   \<and> nextBucket (table_4_2 ''t'' 16 [0, 0, 0]) 0 = Inl SliceBoundsOutOfRange
   \<and> \<not> sliceOK (Buf (File (table_4_2 ''t'' 16 [0, 0, 0]))) (0 * BucketSize (table_4_2 ''t'' 16 [0, 0, 0]))
        (0 * BucketSize (table_4_2 ''t'' 16 [0, 0, 0]) + BUCKET_HEADER_SIZE)"
proof -
  have dec: "Uvarint (Buf (File (table_4_2 ''t'' 17 bytes_put3)))
      (0 * BucketSize (table_4_2 ''t'' 17 bytes_put3))
      (0 * BucketSize (table_4_2 ''t'' 17 bytes_put3) + BUCKET_HEADER_SIZE) = Inr 16"
    by (simp add: eval_defs scenario_defs)
  from nextBucket_validates [of "table_4_2 ''t'' 17 bytes_put3" 0 16] dec
    nextBucket_validates [of "table_4_2 ''t'' 16 [0, 0, 0]" 0 _ SliceBoundsOutOfRange]
    very_short_file_eval
  show ?thesis
    by (simp add: table_4_2_def)
qed

section \<open>Files that hold only zero bytes\<close>

text \<open>On a file of zero bytes every header decodes to 0, so every chain ends at its head.\<close>

lemma Uvarint_loop_zero:
  assumes "off < n"
  shows "Uvarint_loop (replicate n 0) off m 0 0 0 = 0"
  using assms by (subst Uvarint_loop.simps) simp

lemma Uvarint_zero:
  assumes "Uvarint (replicate n 0) lo hi = Inr r"
  shows "r = 0"
proof (cases "lo < hi")
  case True
  with assms have "unat lo < n"
    by (auto simp: Uvarint_def sliceOK_def word_less_nat_alt split: if_splits)
  with assms show ?thesis
    by (auto simp: Uvarint_def Uvarint_loop_zero split: if_splits)
next
  case False
  with assms have "unat hi - unat lo = 0"
    by (auto simp: Uvarint_def sliceOK_def word_le_nat_alt word_less_nat_alt split: if_splits)
  with assms show ?thesis
    by (subst (asm) Uvarint_def) (auto simp: Uvarint_loop.simps split: if_splits)
qed

lemma nextBucket_zero:
  assumes "Buf (File ht) = replicate n 0" and "nextBucket ht b = Inr r"
  shows "r = 0"
  using assms
  by (auto simp: nextBucket_def Let_def split: if_splits sum.splits dest: Uvarint_zero)

lemma lastBucket_zero:
  assumes "Buf (File ht) = replicate n 0" and "lastBucket ht b = Inr r"
  shows "r = b"
  using assms
  by (subst (asm) lastBucket.simps) (auto split: sum.splits if_splits dest: nextBucket_zero)

lemma OpenHash_loop_zero:
  assumes "Buf (File ht) = replicate n 0" and "InitialBuckets ht \<le> l"
    and "OpenHash_loop ht i l = Inr r"
  shows "r = l"
  using assms
proof (induction ht i l rule: OpenHash_loop.induct)
  case (1 ht i l)
  show ?case
  proof (cases "i < InitialBuckets ht")
    case False
    with 1(4) show ?thesis
      by (subst (asm) OpenHash_loop.simps) simp
  next
    case True
    then have "i < l"
      using 1(3) by simp
    then have le: "i + 1 \<le> l"
      by (simp add: inc_le)
    from True 1(4) obtain lb where lb: "lastBucket ht i = Inr lb"
      and rec: "OpenHash_loop ht (i + 1)
        (if lb + 1 > l \<and> lb + 1 \<le> NumBuckets ht then lb + 1 else l) = Inr r"
      by (subst (asm) OpenHash_loop.simps) (auto split: sum.splits)
    from lastBucket_zero [OF 1(2) lb] have "lb = i" .
    from le have nl: "\<not> l < i + 1"
      by (simp add: not_less)
    with rec \<open>lb = i\<close> have rec': "OpenHash_loop ht (i + 1) l = Inr r"
      by simp
    from nl have "\<not> (l < lb + 1 \<and> lb + 1 \<le> NumBuckets ht)"
      using \<open>lb = i\<close> by simp
    with 1(1) [OF True lb] 1(2,3) rec' show ?thesis
      by simp
  qed
qed

text \<open>When the headers of all buckets lie in the file, the walks do not panic.\<close>

lemma header_in_file:
  fixes b bs sz :: u64
  assumes "10 \<le> bs" and "b < sz div bs" and "unat sz \<le> n"
  shows "b * bs \<le> b * bs + 10 \<and> unat (b * bs + 10) \<le> n"
proof -
  have bs0: "0 < unat bs"
    using assms(1) by (simp add: word_le_nat_alt)
  have "unat b < unat sz div unat bs"
    using assms(2) by (simp add: word_less_nat_alt unat_div)
  then have "Suc (unat b) \<le> unat sz div unat bs"
    by simp
  then have "Suc (unat b) * unat bs \<le> (unat sz div unat bs) * unat bs"
    by (rule mult_le_mono1)
  also have "\<dots> \<le> unat sz"
    by simp
  finally have "(unat b + 1) * unat bs \<le> unat sz"
    by simp
  moreover have "10 \<le> unat bs"
    using assms(1) by (simp add: word_le_nat_alt)
  ultimately have bound: "unat b * unat bs + 10 \<le> unat sz"
    by (simp add: algebra_simps)
  have sz: "unat sz < 2 ^ 64"
    using unsigned_less [of sz] by simp
  have m: "unat (b * bs) = unat b * unat bs"
    using bound sz by (simp add: unat_word_ariths)
  have a: "unat (b * bs + 10) = unat b * unat bs + 10"
    using bound sz m by (simp add: unat_word_ariths)
  show ?thesis
    using m a bound assms(3) by (simp add: word_le_nat_alt)
qed

lemma nextBucket_zero_total:
  assumes "Buf (File ht) = replicate n 0" and "10 \<le> BucketSize ht"
    and "NumBuckets ht \<le> Size (File ht) div BucketSize ht" and "unat (Size (File ht)) \<le> n"
  shows "nextBucket ht b = Inr 0"
proof (cases "NumBuckets ht \<le> b")
  case True
  then show ?thesis by (simp add: nextBucket_def)
next
  case False
  then have "b < Size (File ht) div BucketSize ht"
    using assms(3) by simp
  from header_in_file [OF assms(2) this assms(4)]
  have ok: "sliceOK (Buf (File ht)) (b * BucketSize ht) (b * BucketSize ht + BUCKET_HEADER_SIZE)"
    by (simp add: sliceOK_def assms(1) BUCKET_HEADER_SIZE_def)
  then obtain r where r: "Uvarint (Buf (File ht)) (b * BucketSize ht)
      (b * BucketSize ht + BUCKET_HEADER_SIZE) = Inr r"
    by (simp add: Uvarint_def)
  with assms(1) have "r = 0"
    using Uvarint_zero by metis
  with r False show ?thesis
    by (simp add: nextBucket_def Let_def)
qed

lemma lastBucket_zero_total:
  assumes "Buf (File ht) = replicate n 0" and "10 \<le> BucketSize ht"
    and "NumBuckets ht \<le> Size (File ht) div BucketSize ht" and "unat (Size (File ht)) \<le> n"
  shows "lastBucket ht b = Inr b"
  by (subst lastBucket.simps) (simp add: nextBucket_zero_total [OF assms])

lemma OpenHash_loop_zero_total:
  assumes "Buf (File ht) = replicate n 0" and "10 \<le> BucketSize ht"
    and "NumBuckets ht \<le> Size (File ht) div BucketSize ht" and "unat (Size (File ht)) \<le> n"
    and "InitialBuckets ht \<le> l"
  shows "OpenHash_loop ht i l = Inr l"
  using assms
proof (induction ht i l rule: OpenHash_loop.induct)
  case (1 ht i l)
  show ?case
  proof (cases "i < InitialBuckets ht")
    case False
    then show ?thesis
      by (subst OpenHash_loop.simps) simp
  next
    case True
    then have "i < l"
      using 1(6) by simp
    then have le: "i + 1 \<le> l"
      by (simp add: inc_le)
    have lb: "lastBucket ht i = Inr i"
      using lastBucket_zero_total [OF 1(2-5)] .
    from le have nl: "\<not> l < i + 1"
      by (simp add: not_less)
    from 1(1) [OF True lb] nl 1(2-6) have "OpenHash_loop ht (i + 1) l = Inr l"
      by simp
    with True lb nl show ?thesis
      by (subst OpenHash_loop.simps) simp
  qed
qed

lemma Open_new_eval:
  "Open name None 1048576
     = Some (Inr \<lparr>Name = name, UsedSize = 0, Size = 1048576, Growth = 1048576,
                  Buf = replicate 1048576 0\<rparr>)"
  by (simp add: eval_defs)

section \<open>A new table with more than 65 * 16384 head buckets\<close>

text \<open>
  The table that \<open>OpenHash\<close> returns for a new file with \<open>hashBits = 21\<close> and
  \<open>perBucket = 2\<close>: \<open>2 ^ 21 = 2097152\<close> buckets of 52 bytes in a file of 105 MiB. The
  slice of locks was made when the file had its first 1 MiB, \<open>1048576 / 16384 + 1 = 65\<close>
  locks, and \<open>OpenHash\<close> does not extend it when it extends the file.
\<close>

definition table_21_2 :: "string \<Rightarrow> HashTable" where
  "table_21_2 name =
     \<lparr>File = \<lparr>Name = name, UsedSize = 109051904, Size = 110100480, Growth = 1048576,
              Buf = replicate 110100480 0\<rparr>,
      BucketSize = 52, HashBits = 21, PerBucket = 2, NumBuckets = 2097152,
      InitialBuckets = 2097152, regionRWMutex = 65\<rparr>"

lemma OpenHash_loop_21_2:
  "OpenHash_loop
     \<lparr>File = \<lparr>Name = name, UsedSize = 1048576, Size = 1048576, Growth = 1048576,
              Buf = replicate 1048576 0\<rparr>,
      BucketSize = 52, HashBits = 21, PerBucket = 2, NumBuckets = 20164,
      InitialBuckets = 2097152, regionRWMutex = 65\<rparr> 0 2097152 = Inr 2097152"
  by (rule OpenHash_loop_zero_total [where n = 1048576]) simp_all

lemma OpenHash_21_2_eval:
  "OpenHash name None 21 2 = Some (Inr (table_21_2 name))"
  apply (simp add: OpenHash_def Open_new_eval Let_def const_defs Pow2_def OpenHash_loop_21_2)
  apply (simp add: CheckSizeAndEnsure.simps CheckSizeAndEnsure_loop.simps const_defs Let_def
      replicate_add [symmetric] table_21_2_def)
  done

text \<open>
  C1 fails on this table. \<open>Put(2000000, 1)\<close> on the new table: the key is its own head
  bucket (\<open>2000000 < 2 ^ 21\<close>), its region is \<open>2000000 / 16384 = 122\<close>, and
  \<open>ht.regionRWMutex[122]\<close> is outside the 65 locks: the call panics before it writes
  anything, and so does \<open>Get(2000000, 0, always-true)\<close>. The claim asks for \<open>Get\<close> to
  return the pair (2000000, 1).
\<close>

theorem Put_new_table_21_2_panics:
  "OpenHash name None 21 2 = Some (Inr (table_21_2 name))
   \<and> regionRWMutex (table_21_2 name) = 65
   \<and> hashKey (table_21_2 name) 2000000 = 2000000
   \<and> unat (hashKey (table_21_2 name) 2000000 div HASH_TABLE_REGION_SIZE) = 122
   \<and> Put (table_21_2 name) 2000000 1 = Some (Inl IndexOutOfRange)
   \<and> Get (table_21_2 name) 2000000 0 always_true = Inl IndexOutOfRange"
  by (simp add: OpenHash_21_2_eval) (simp add: eval_defs table_21_2_def)

text \<open>
  C8 fails on the same table, by the same index into the slice of locks. The first entry
  of the chain of head bucket 2000000 is not valid and holds key 0 and value 0, so the
  claim asks \<open>Remove(2000000, 1)\<close> to return and to leave the table as it is; the call
  panics.
\<close>

theorem Remove_new_table_21_2_panics:
  "OpenHash name None 21 2 = Some (Inr (table_21_2 name))
   \<and> entryAt (table_21_2 name) (hashKey (table_21_2 name) 2000000) 0 = Inr (ENTRY_INVALID, 0, 0)
   \<and> regionRWMutex (table_21_2 name) = 65
   \<and> unat (hashKey (table_21_2 name) 2000000 div HASH_TABLE_REGION_SIZE) = 122
   \<and> Remove (table_21_2 name) 2000000 1 = Inl IndexOutOfRange"
  by (simp add: OpenHash_21_2_eval) (simp add: eval_defs table_21_2_def)

section \<open>The search for the used size\<close>

text \<open>
  The table that \<open>OpenHash\<close> returns for a new file with \<open>hashBits = 15\<close> and
  \<open>perBucket = 3\<close>: \<open>2 ^ 15 = 32768\<close> buckets of 73 bytes in a file of 3 MiB of zero
  bytes.
\<close>

definition table_15_3 :: "string \<Rightarrow> HashTable" where
  "table_15_3 name =
     \<lparr>File = \<lparr>Name = name, UsedSize = 2392064, Size = 3145728, Growth = 1048576,
              Buf = replicate 3145728 0\<rparr>,
      BucketSize = 73, HashBits = 15, PerBucket = 3, NumBuckets = 32768,
      InitialBuckets = 32768, regionRWMutex = 65\<rparr>"

lemma OpenHash_loop_15_3:
  "OpenHash_loop
     \<lparr>File = \<lparr>Name = name, UsedSize = 1048576, Size = 1048576, Growth = 1048576,
              Buf = replicate 1048576 0\<rparr>,
      BucketSize = 73, HashBits = 15, PerBucket = 3, NumBuckets = 14364,
      InitialBuckets = 32768, regionRWMutex = 65\<rparr> 0 32768 = Inr 32768"
  by (rule OpenHash_loop_zero_total [where n = 1048576]) simp_all

lemma OpenHash_15_3_eval:
  "OpenHash name None 15 3 = Some (Inr (table_15_3 name))"
  apply (simp add: OpenHash_def Open_new_eval Let_def const_defs Pow2_def OpenHash_loop_15_3)
  apply (simp add: CheckSizeAndEnsure.simps CheckSizeAndEnsure_loop.simps const_defs Let_def
      replicate_add [symmetric] table_15_3_def)
  done

lemma unat_minus_1_u64: "unat (- 1 :: u64) = 18446744073709551615"
  by (simp add: unsigned_minus_1_eq_mask mask_eq_exp_minus_1)

text \<open>
  C9 fails where the search arrives at \<open>mid = 0\<close> with \<open>buf[0] = 0\<close>: the case
  \<open>high - mid == 1\<close> then reads \<open>file.Buf[mid-1]\<close>, which is
  \<open>file.Buf[18446744073709551615]\<close>, and \<open>Open\<close> panics instead of setting
  \<open>UsedSize\<close>. This happens for a file of one zero byte, and for every file of 3 MiB
  whose bytes 1572864, 786432, ..., 6, 3, 1 and 0 are zero: the file that \<open>OpenHash\<close> has
  just created with \<open>hashBits = 15\<close> and \<open>perBucket = 3\<close> cannot be opened again.
\<close>

theorem Open_search_panics:
  "Open_loop [0] 0 (1 div 2) 1 = Some (Inl IndexOutOfRange)
   \<and> Open name (Some [0]) growth = Some (Inl IndexOutOfRange)
   \<and> OpenHash name None 15 3 = Some (Inr (table_15_3 name))
   \<and> Buf (File (table_15_3 name)) = replicate 3145728 0
   \<and> Open_loop (replicate 3145728 0) 0 (3145728 div 2) 3145728 = Some (Inl IndexOutOfRange)
   \<and> Open name (Some (Buf (File (table_15_3 name)))) HASH_TABLE_GROWTH
        = Some (Inl IndexOutOfRange)
   \<and> OpenHash name (Some (Buf (File (table_15_3 name)))) 15 3 = Some (Inl IndexOutOfRange)"
  by (simp add: OpenHash_15_3_eval) (simp add: eval_defs table_15_3_def unat_minus_1_u64)

section \<open>Growing the file\<close>

text \<open>
  C4 fails for a growth that is not a multiple of \<open>FILE_GROWTH_INCREMENTAL\<close>. With
  \<open>Growth = 1\<close> on an empty file, \<open>CheckSize(1)\<close> is false and \<open>CheckSizeAndEnsure(1)\<close>
  takes one growth step: the slice written is
  \<open>zeroBuf[0 : i+FILE_GROWTH_INCREMENTAL-file.Growth] = zeroBuf[0 : 1048575]\<close>, so the
  file receives 1048575 zero bytes where the claim says 1, while \<open>Size\<close> becomes 1.
  \<open>Open\<close> with growth 1 on a file that does not exist is this call.
\<close>

theorem CheckSizeAndEnsure_growth_1:
  "\<not> CheckSize \<lparr>Name = name, UsedSize = 0, Size = 0, Growth = 1, Buf = []\<rparr> 1
   \<and> CheckSizeAndEnsure_loop 0 1 [] = Some (Inr (replicate 1048575 0))
   \<and> CheckSizeAndEnsure \<lparr>Name = name, UsedSize = 0, Size = 0, Growth = 1, Buf = []\<rparr> 1
        = Some (Inr \<lparr>Name = name, UsedSize = 0, Size = 1, Growth = 1, Buf = replicate 1048575 0\<rparr>)
   \<and> Open name None 1
        = Some (Inr \<lparr>Name = name, UsedSize = 0, Size = 1, Growth = 1, Buf = replicate 1048575 0\<rparr>)
   \<and> length (replicate 1048575 (0 :: byte)) \<noteq> 1"
  by (simp add: eval_defs)

section \<open>Varints: what is written is what is read\<close>

lemma bit_0x80: "bit (0x80 :: byte) k \<longleftrightarrow> k = 7"
proof -
  have "bit (2 ^ 7 :: byte) k \<longleftrightarrow> k = 7"
    by (subst bit_exp_iff) (auto simp: possible_bit_word)
  then show ?thesis by simp
qed

lemma bit_0x7f: "bit (0x7f :: byte) k \<longleftrightarrow> k < 7"
proof -
  have "bit (mask 7 :: byte) k \<longleftrightarrow> k < 7"
    by (subst bit_mask_iff) auto
  then show ?thesis by (simp add: mask_eq_exp_minus_1)
qed


lemma byte_less_0x80_iff: "(b :: byte) < 0x80 \<longleftrightarrow> \<not> bit b 7"
proof -
  have lt: "unat b < 256"
    using unsigned_less [of b] by simp
  have "bit b 7 \<longleftrightarrow> bit (unat b) 7"
    by (simp add: bit_unsigned_iff)
  also have "\<dots> \<longleftrightarrow> odd (unat b div 2 ^ 7)"
    by (rule bit_iff_odd)
  also have "\<dots> \<longleftrightarrow> \<not> unat b < 128"
  proof (cases "unat b < 128")
    case True
    then show ?thesis by simp
  next
    case False
    with lt have "unat b div 2 ^ 7 = 1" by simp
    with False show ?thesis by simp
  qed
  finally show ?thesis
    by (simp add: word_less_nat_alt)
qed

lemma continuation_byte_not_less: "\<not> ((ucast (x :: u64) OR 0x80 :: byte) < 0x80)"
  by (simp only: byte_less_0x80_iff bit_or_iff bit_0x80) simp

lemma continuation_byte_payload:
  "(ucast ((ucast (x :: u64) OR 0x80 :: byte) AND 0x7f) :: u64) = take_bit 7 x"
proof (rule bit_word_eqI)
  fix k
  assume "k < LENGTH(64)"
  show "bit (ucast ((ucast x OR 0x80 :: byte) AND 0x7f) :: u64) k = bit (take_bit 7 x) k"
    by (simp only: bit_ucast_iff bit_and_iff bit_or_iff bit_0x80 bit_0x7f bit_take_bit_iff)
      auto
qed


lemma take_push_drop_7: "take_bit 7 (x :: u64) OR push_bit 7 (drop_bit 7 x) = x"
proof (rule bit_word_eqI)
  fix k
  assume k: "k < LENGTH(64)"
  show "bit (take_bit 7 x OR push_bit 7 (drop_bit 7 x)) k = bit x k"
  proof (cases "k < 7")
    case True
    then show ?thesis
      by (simp add: bit_or_iff bit_take_bit_iff bit_push_bit_iff)
  next
    case False
    then have "7 + (k - 7) = k"
      by simp
    with False k show ?thesis
      by (simp add: bit_or_iff bit_take_bit_iff bit_push_bit_iff bit_drop_bit_eq
          possible_bit_word)
  qed
qed

lemma small_no_high_bits:
  assumes "\<not> 0x80 \<le> (x :: u64)" and "7 \<le> k"
  shows "\<not> bit x k"
proof -
  have "x < 2 ^ 7"
    using assms(1) by (simp add: not_le)
  then have "take_bit 7 x = x"
    by (simp add: take_bit_eq_mask less_mask_eq)
  then have "bit (take_bit 7 x) k = bit x k"
    by (simp only:)
  with assms(2) show ?thesis
    by (simp add: bit_take_bit_iff)
qed

lemma final_byte_less:
  assumes "\<not> 0x80 \<le> (x :: u64)"
  shows "(ucast x :: byte) < 0x80"
  by (simp only: byte_less_0x80_iff bit_ucast_iff) (simp add: small_no_high_bits [OF assms])

lemma final_byte_value:
  assumes "\<not> 0x80 \<le> (x :: u64)"
  shows "(ucast (ucast x :: byte) :: u64) = x"
proof (rule bit_word_eqI)
  fix k
  assume "k < LENGTH(64)"
  show "bit (ucast (ucast x :: byte) :: u64) k = bit x k"
    using small_no_high_bits [OF assms, of k]
    by (cases "k < 8") (simp_all add: bit_ucast_iff)
qed

lemma push_bit_split_7: "(acc OR push_bit (7 * i) (take_bit 7 x)) OR push_bit (7 * (i + 1)) (drop_bit 7 x)
  = acc OR push_bit (7 * i) (take_bit 7 x OR push_bit 7 (drop_bit 7 (x::u64)))"
proof -
  have "push_bit (7 * (i + 1)) (drop_bit 7 x) = push_bit (7 * i) (push_bit 7 (drop_bit 7 x))"
    by (simp add: push_bit_push_bit add.commute)
  then show ?thesis
    by (simp only: push_bit_or or.assoc)
qed

lemma Uvarint_loop_continue:
  assumes "i < n" and "buf' ! (off + i) = ucast (x::u64) OR 0x80"
  shows "Uvarint_loop buf' off n i acc s
        = Uvarint_loop buf' off n (i + 1) (acc OR push_bit s (take_bit 7 x)) (s + 7)"
  using assms continuation_byte_not_less [of x] continuation_byte_payload [of x]
  by (subst Uvarint_loop.simps) (simp add: Let_def)

lemma PutUvarint_loop_length:
  "PutUvarint_loop buf off n i x = Inr buf' \<Longrightarrow> length buf' = length buf"
proof (induction buf off n i x rule: PutUvarint_loop.induct)
  case (1 buf off n i x)
  from 1(2) have "(if 0x80 \<le> x then
        (if i < n then
           PutUvarint_loop (buf[off + i := ucast x OR 0x80]) off n (i + 1) (drop_bit 7 x)
         else Inl IndexOutOfRange)
      else
        (if i < n then Inr (buf[off + i := ucast x]) else Inl IndexOutOfRange)) = Inr buf'"
    by (subst (asm) PutUvarint_loop.simps) simp
  then show ?case
    using 1(1) by (auto split: if_splits)
qed

lemma PutUvarint_loop_frame:
  "PutUvarint_loop buf off n i x = Inr buf' \<Longrightarrow> j < off + i \<or> off + n \<le> j
   \<Longrightarrow> buf' ! j = buf ! j"
proof (induction buf off n i x rule: PutUvarint_loop.induct)
  case (1 buf off n i x)
  show ?case
  proof (cases "0x80 \<le> x")
    case True
    with 1(2) have "(if i < n then
           PutUvarint_loop (buf[off + i := ucast x OR 0x80]) off n (i + 1) (drop_bit 7 x)
         else Inl IndexOutOfRange) = Inr buf'"
      by (subst (asm) PutUvarint_loop.simps) simp
    then have i: "i < n"
      and rec: "PutUvarint_loop (buf[off + i := ucast x OR 0x80]) off n (i + 1) (drop_bit 7 x)
        = Inr buf'"
      by (auto split: if_splits)
    from 1(3) have "j < off + (i + 1) \<or> off + n \<le> j"
      by auto
    from 1(1) [OF True i rec this] have "buf' ! j = buf[off + i := ucast x OR 0x80] ! j" .
    moreover from 1(3) i have "off + i \<noteq> j"
      by auto
    ultimately show ?thesis
      by simp
  next
    case False
    with 1(2) have "(if i < n then Inr (buf[off + i := ucast x]) else Inl IndexOutOfRange)
        = Inr buf'"
      by (subst (asm) PutUvarint_loop.simps) simp
    then have i: "i < n" and "buf' = buf[off + i := ucast x]"
      by (auto split: if_splits)
    moreover from 1(3) i have "off + i \<noteq> j"
      by auto
    ultimately show ?thesis
      by simp
  qed
qed

lemma drop_bit_7_bound:
  fixes x :: u64
  assumes "unat x < 2 ^ (64 - 7 * i)" and "i \<le> 8"
  shows "unat (drop_bit 7 x) < 2 ^ (64 - 7 * (i + 1))"
proof -
  define k where "k = 64 - 7 * (i + 1)"
  have "64 - 7 * i = k + 7"
    unfolding k_def using assms(2) by arith
  with assms(1) have "unat x < 2 ^ (k + 7)"
    by (simp only:)
  then have "unat x < 2 ^ k * 2 ^ 7"
    by (simp only: power_add)
  then have "unat x div 2 ^ 7 < 2 ^ k"
    by (rule less_mult_imp_div_less)
  moreover have "unat (drop_bit 7 x) = unat x div 2 ^ 7"
    by (simp add: drop_bit_eq_div unat_div)
  ultimately show ?thesis
    unfolding k_def by (simp only:)
qed

lemma big_at_9:
  fixes x :: u64
  assumes "unat x < 2 ^ (64 - 7 * i)" and "0x80 \<le> x" and "i \<le> 9"
  shows "i \<le> 8"
proof (rule ccontr)
  assume "\<not> i \<le> 8"
  with assms(3) have "i = 9" by simp
  with assms(1) have "unat x < 2" by simp
  moreover from assms(2) have "128 \<le> unat x" by (simp add: word_le_nat_alt)
  ultimately show False by simp
qed

lemma PutUvarint_loop_ok:
  "unat x < 2 ^ (64 - 7 * i) \<Longrightarrow> i \<le> 9 \<Longrightarrow> 10 \<le> n
   \<Longrightarrow> \<exists>buf'. PutUvarint_loop buf off n i x = Inr buf'"
proof (induction buf off n i x rule: PutUvarint_loop.induct)
  case (1 buf off n i x)
  from 1(3,4) have i: "i < n" by simp
  show ?case
  proof (cases "0x80 \<le> x")
    case True
    from big_at_9 [OF 1(2) True 1(3)] have i8: "i \<le> 8" .
    from 1(1) [OF True i drop_bit_7_bound [OF 1(2) i8] _ 1(4)] i8
    obtain buf' where "PutUvarint_loop (buf[off + i := ucast x OR 0x80]) off n (i + 1)
        (drop_bit 7 x) = Inr buf'"
      by auto
    with True i show ?thesis
      by (subst PutUvarint_loop.simps) simp
  next
    case False
    with i show ?thesis
      by (subst PutUvarint_loop.simps) simp
  qed
qed

lemma Uvarint_loop_cong:
  "(\<And>j. i \<le> j \<Longrightarrow> j < n \<Longrightarrow> buf ! (off + j) = buf' ! (off + j))
   \<Longrightarrow> Uvarint_loop buf off n i x s = Uvarint_loop buf' off n i x s"
proof (induction buf off n i x s rule: Uvarint_loop.induct)
  case (1 buf off n i x s)
  show ?case
  proof (cases "i < n")
    case False
    then show ?thesis
      by (simp add: Uvarint_loop.simps [of _ _ n i])
  next
    case True
    then have b: "buf ! (off + i) = buf' ! (off + i)"
      using 1(2) [of i] by simp
    show ?thesis
    proof (cases "buf ! (off + i) < 0x80")
      case less: True
      with True b show ?thesis
        by (simp add: Uvarint_loop.simps [of _ _ n i] Let_def)
    next
      case False
      have "Uvarint_loop buf off n (i + 1)
            (x OR push_bit s (ucast (buf ! (off + i) AND 0x7f))) (s + 7)
          = Uvarint_loop buf' off n (i + 1)
            (x OR push_bit s (ucast (buf ! (off + i) AND 0x7f))) (s + 7)"
        using 1(1) [OF True refl False] 1(2) by simp
      with True False b show ?thesis
        by (simp add: Uvarint_loop.simps [of _ _ n i] Let_def)
    qed
  qed
qed

lemma PutUvarint_loop_roundtrip:
  "PutUvarint_loop buf off n i x = Inr buf' \<Longrightarrow> off + n \<le> length buf
   \<Longrightarrow> unat x < 2 ^ (64 - 7 * i) \<Longrightarrow> i \<le> 9
   \<Longrightarrow> Uvarint_loop buf' off n i acc (7 * i) = acc OR push_bit (7 * i) x"
proof (induction buf off n i x arbitrary: acc rule: PutUvarint_loop.induct)
  case (1 buf off n i x)
  show ?case
  proof (cases "0x80 \<le> x")
    case True
    with 1(2) have "(if i < n then
           PutUvarint_loop (buf[off + i := ucast x OR 0x80]) off n (i + 1) (drop_bit 7 x)
         else Inl IndexOutOfRange) = Inr buf'"
      by (subst (asm) PutUvarint_loop.simps) simp
    then have i: "i < n"
      and rec: "PutUvarint_loop (buf[off + i := ucast x OR 0x80]) off n (i + 1) (drop_bit 7 x)
        = Inr buf'"
      by (auto split: if_splits)
    from big_at_9 [OF 1(4) True 1(5)] have i8: "i \<le> 8" .
    have len: "off + n \<le> length (buf[off + i := ucast x OR 0x80])"
      using 1(3) by simp
    have "buf' ! (off + i) = buf[off + i := ucast x OR 0x80] ! (off + i)"
      using PutUvarint_loop_frame [OF rec, of "off + i"] by simp
    also have "\<dots> = ucast x OR 0x80"
      using 1(3) i by simp
    finally have b: "buf' ! (off + i) = ucast x OR 0x80" .
    have i9: "i + 1 \<le> 9"
      using i8 by simp
    have s7: "7 * i + 7 = 7 * (i + 1)"
      by simp
    have "Uvarint_loop buf' off n i acc (7 * i)
        = Uvarint_loop buf' off n (i + 1) (acc OR push_bit (7 * i) (take_bit 7 x)) (7 * i + 7)"
      using i b by (rule Uvarint_loop_continue)
    also have "\<dots> = (acc OR push_bit (7 * i) (take_bit 7 x))
        OR push_bit (7 * (i + 1)) (drop_bit 7 x)"
      unfolding s7
      by (rule 1(1) [OF True i rec len drop_bit_7_bound [OF 1(4) i8] i9])
    also have "\<dots> = acc OR push_bit (7 * i) (take_bit 7 x OR push_bit 7 (drop_bit 7 x))"
      by (rule push_bit_split_7)
    also have "\<dots> = acc OR push_bit (7 * i) x"
      by (simp only: take_push_drop_7)
    finally show ?thesis .
  next
    case False
    with 1(2) have "(if i < n then Inr (buf[off + i := ucast x]) else Inl IndexOutOfRange)
        = Inr buf'"
      by (subst (asm) PutUvarint_loop.simps) simp
    then have i: "i < n" and buf': "buf' = buf[off + i := ucast x]"
      by (auto split: if_splits)
    have b: "buf' ! (off + i) = ucast x"
      using 1(3) i buf' by simp
    have small: "i = 9 \<Longrightarrow> \<not> (ucast x :: byte) > 1"
    proof
      assume "i = 9" and gt: "(ucast x :: byte) > 1"
      with 1(4) have "unat x < 2" by simp
      then have "unat x = 0 \<or> unat x = 1"
        by arith
      then have "x = 0 \<or> x = 1"
        by (simp add: word_unat_eq_iff)
      with gt show False by auto
    qed
    show ?thesis
      using i b final_byte_less [OF False] final_byte_value [OF False] 1(5) small
      by (subst Uvarint_loop.simps) (auto simp: Let_def)
  qed
qed

section \<open>A removed pair (0, 0) looks like an entry that was never written\<close>

text \<open>What \<open>OpenHash\<close> returns for a file that does not exist, whatever the parameters.\<close>

lemma appended_zeros_replicate:
  assumes "appended_zeros (replicate m 0) bs"
  shows "\<exists>n. m \<le> n \<and> bs = replicate n 0"
proof -
  from assms obtain k where "bs = replicate m 0 @ replicate k 0"
    by (auto simp: appended_zeros_def)
  then have "bs = replicate (m + k) 0"
    by (simp add: replicate_add)
  then show ?thesis
    by (intro exI [of _ "m + k"]) simp
qed

lemma OpenHash_new_props:
  assumes "OpenHash name None hashBits perBucket = Some (Inr ht)"
  shows "\<exists>n. 1048576 \<le> n \<and> Buf (File ht) = replicate n 0"
    and "PerBucket ht = perBucket" and "2 \<le> perBucket" and "regionRWMutex ht = 65"
    and "HashBits ht = hashBits"
proof -
  let ?f = "\<lparr>Name = name, UsedSize = 0, Size = 1048576, Growth = 1048576,
             Buf = replicate 1048576 0\<rparr>"
  from assms have ge: "\<not> (hashBits < 2 \<or> perBucket < 2)"
    by (auto simp: OpenHash_def)
  then show "2 \<le> perBucket"
    by (simp add: not_less)
  from assms ge obtain file1 where
    ht: "ht = \<lparr>File = file1, BucketSize = BUCKET_HEADER_SIZE + ENTRY_SIZE * perBucket,
               HashBits = hashBits, PerBucket = perBucket,
               NumBuckets = NumBuckets ht, InitialBuckets = Pow2 hashBits,
               regionRWMutex = 65\<rparr>"
    and f1: "appended_zeros (replicate 1048576 0) (Buf file1)"
    apply (simp add: OpenHash_def Open_new_eval HASH_TABLE_GROWTH_def Let_def
        HASH_TABLE_REGION_SIZE_def
        split: if_splits sum.splits option.splits)
     apply (auto simp: appended_zeros_refl dest!: CheckSizeAndEnsure_frame(4))
    done
  from appended_zeros_replicate [OF f1] ht
  show "\<exists>n. 1048576 \<le> n \<and> Buf (File ht) = replicate n 0"
    by (metis HashTable.select_convs(1))
  from ht show "PerBucket ht = perBucket"
    by (metis HashTable.select_convs(4))
  from ht show "regionRWMutex ht = 65"
    by (metis HashTable.select_convs(7))
  from ht show "HashBits ht = hashBits"
    by (metis HashTable.select_convs(3))
qed

text \<open>
  \<open>binary.PutUvarint\<close> on a window of 10 bytes inside the file never panics, changes
  no byte outside the window, and \<open>binary.Uvarint\<close> on the window reads the value back.
\<close>

lemma PutUvarint_window:
  assumes "unat lo + 10 \<le> length buf" and "unat hi = unat lo + 10"
  shows "\<exists>buf'. PutUvarint buf lo hi x = Inr buf'
           \<and> length buf' = length buf
           \<and> (\<forall>j. j < unat lo \<or> unat hi \<le> j \<longrightarrow> buf' ! j = buf ! j)
           \<and> Uvarint buf' lo hi = Inr x"
proof -
  have ok: "sliceOK buf lo hi"
    using assms by (simp add: sliceOK_def word_le_nat_alt)
  have n: "unat hi - unat lo = 10"
    using assms(2) by simp
  have "unat x < 2 ^ (64 - 7 * 0)"
    using unsigned_less [of x] by simp
  note x = this
  from PutUvarint_loop_ok [OF x, of 10 buf "unat lo"]
  obtain buf' where p: "PutUvarint_loop buf (unat lo) 10 0 x = Inr buf'"
    by auto
  have len: "length buf' = length buf"
    using PutUvarint_loop_length [OF p] .
  have fr: "\<forall>j. j < unat lo \<or> unat hi \<le> j \<longrightarrow> buf' ! j = buf ! j"
    using PutUvarint_loop_frame [OF p] assms(2) by auto
  have "Uvarint_loop buf' (unat lo) 10 0 0 (7 * 0) = 0 OR push_bit (7 * 0) x"
    by (rule PutUvarint_loop_roundtrip [OF p assms(1) x]) simp
  then have rt: "Uvarint_loop buf' (unat lo) 10 0 0 0 = x"
    by simp
  have ok': "sliceOK buf' lo hi"
    using ok len by (simp add: sliceOK_def)
  show ?thesis
    using p len fr rt ok ok' n
    by (intro exI [of _ buf']) (simp add: PutUvarint_def Uvarint_def)
qed

lemma PutUvarint_0:
  assumes "unat lo < unat hi" and "unat hi \<le> length buf"
  shows "PutUvarint buf lo hi 0 = Inr (buf[unat lo := 0])"
  using assms
  by (simp add: PutUvarint_def sliceOK_def word_le_nat_alt PutUvarint_loop.simps)

lemma Uvarint_first_0:
  assumes "unat lo < unat hi" and "unat hi \<le> length buf" and "buf ! unat lo = 0"
  shows "Uvarint buf lo hi = Inr 0"
  using assms
  by (simp add: Uvarint_def sliceOK_def word_le_nat_alt Uvarint_loop.simps)

lemma Uvarint_same_window:
  assumes "Uvarint buf lo hi = Inr x" and "length buf' = length buf"
    and "\<And>j. unat lo \<le> j \<Longrightarrow> j < unat hi \<Longrightarrow> buf' ! j = buf ! j"
  shows "Uvarint buf' lo hi = Inr x"
proof -
  from assms(1) have ok: "sliceOK buf lo hi"
    and x: "Uvarint_loop buf (unat lo) (unat hi - unat lo) 0 0 0 = x"
    by (auto simp: Uvarint_def split: if_splits)
  have "Uvarint_loop buf' (unat lo) (unat hi - unat lo) 0 0 0
      = Uvarint_loop buf (unat lo) (unat hi - unat lo) 0 0 0"
    by (rule Uvarint_loop_cong) (simp add: assms(3))
  with ok x assms(2) show ?thesis
    by (simp add: Uvarint_def sliceOK_def)
qed

lemma removed_zero_pair_steps:
  assumes B: "Buf (File ht) = replicate n 0" and n: "1048576 \<le> n"
    and P: "2 \<le> PerBucket ht" and M: "regionRWMutex ht = 65"
  shows "\<exists>ht1 ht2 ht3.
      Put ht 0 0 = Some (Inr ht1)
      \<and> Put ht1 0 v = Some (Inr ht2)
      \<and> entryAt ht2 0 0 = Inr (ENTRY_VALID, 0, 0)
      \<and> entryAt ht2 0 1 = Inr (ENTRY_VALID, 0, v)
      \<and> Remove ht2 0 0 = Inr ht3
      \<and> index (Buf (File ht3)) 10 = Inr ENTRY_INVALID
      \<and> take 20 (drop 11 (Buf (File ht3))) = replicate 20 0
      \<and> entryAt ht3 0 0 = Inr (ENTRY_INVALID, 0, 0)
      \<and> entryAt ht3 0 1 = Inr (ENTRY_VALID, 0, v)
      \<and> Get ht3 0 0 always_true = Inr ([], [])"
proof -
  define b1 where "b1 = (replicate n (0 :: byte))[10 := 1, 11 := 0, 21 := 0]"
  define b2pre where "b2pre = b1[31 := 1, 32 := 0]"
  have len_pre: "length b2pre = n"
    by (simp add: b2pre_def b1_def)
  from PutUvarint_window [of 42 b2pre 52 v] n len_pre
  obtain b2 where put_v: "PutUvarint b2pre 42 52 v = Inr b2"
    and len2: "length b2 = n"
    and frame: "\<And>j. j < 42 \<or> 52 \<le> j \<Longrightarrow> b2 ! j = b2pre ! j"
    and read_v: "Uvarint b2 42 52 = Inr v"
    by auto
  define b3 where "b3 = b2[10 := 0]"
  define ht1 where "ht1 = ht\<lparr>File := (File ht)\<lparr>Buf := b1\<rparr>\<rparr>"
  define ht2 where "ht2 = ht1\<lparr>File := (File ht1)\<lparr>Buf := b2\<rparr>\<rparr>"
  define ht3 where "ht3 = ht2\<lparr>File := (File ht2)\<lparr>Buf := b3\<rparr>\<rparr>"
  have pb: "1 \<noteq> PerBucket ht"
    using P by (auto simp: word_le_nat_alt)
  have low: "b2 ! j = (if j = 10 \<or> j = 31 then 1 else 0)" if "j < 42" for j
    using that n frame [of j] by (auto simp: b2pre_def b1_def nth_list_update)
  have s1: "Put ht 0 0 = Some (Inr ht1)"
    using n
    by (simp add: Put_def hashKey_def Put_loop.simps [of ht] index_def B M const_defs
        PutUvarint_0 ht1_def b1_def)
  have f1: "Buf (File ht1) = b1" "PerBucket ht1 = PerBucket ht" "regionRWMutex ht1 = 65"
    by (simp_all add: ht1_def M)
  have len1: "length b1 = n"
    by (simp add: b1_def)
  have b1_10: "b1 ! 10 = 1" and b1_31: "b1 ! 31 = 0"
    using n by (simp_all add: b1_def)
  have s2: "Put ht1 0 v = Some (Inr ht2)"
    using n pb put_v len1 b1_10 b1_31
    by (simp add: Put_def hashKey_def Put_loop.simps [of ht1] index_def f1 const_defs
        PutUvarint_0 ht2_def b2pre_def)
  have e20: "entryAt ht2 0 0 = Inr (ENTRY_VALID, 0, 0)"
    using n len2 low
    by (simp add: entryAt_def ht2_def ht1_def const_defs index_def Uvarint_first_0)
  have e21: "entryAt ht2 0 1 = Inr (ENTRY_VALID, 0, v)"
    using n len2 low read_v
    by (simp add: entryAt_def ht2_def ht1_def const_defs index_def Uvarint_first_0)
  have f2: "Buf (File ht2) = b2" "regionRWMutex ht2 = 65"
    by (simp_all add: ht2_def ht1_def M)
  have s3: "Remove ht2 0 0 = Inr ht3"
    using n len2 low
    by (simp add: Remove_def hashKey_def Remove_loop.simps [of ht2] index_def f2 const_defs
        Uvarint_first_0 ht3_def b3_def)
  have low3: "b3 ! j = (if j = 31 then 1 else 0)" if "j < 42" for j
    using that low [of j] len2 n by (auto simp: b3_def nth_list_update)
  have len3: "length b3 = n"
    by (simp add: b3_def len2)
  have read_v3: "Uvarint b3 42 52 = Inr v"
    by (rule Uvarint_same_window [OF read_v]) (simp_all add: b3_def)
  have flag: "index (Buf (File ht3)) 10 = Inr ENTRY_INVALID"
    using n len3 low3 by (simp add: ht3_def index_def const_defs)
  have zeros: "take 20 (drop 11 (Buf (File ht3))) = replicate 20 0"
  proof (rule nth_equalityI)
    show "length (take 20 (drop 11 (Buf (File ht3)))) = length (replicate 20 (0 :: byte))"
      using n len3 by (simp add: ht3_def)
    fix i
    assume "i < length (take 20 (drop 11 (Buf (File ht3))))"
    then have i: "i < 20"
      by simp
    then show "take 20 (drop 11 (Buf (File ht3))) ! i = replicate 20 0 ! i"
      using n len3 low3 [of "11 + i"] by (simp add: ht3_def)
  qed
  have e30: "entryAt ht3 0 0 = Inr (ENTRY_INVALID, 0, 0)"
    using n len3 low3
    by (simp add: entryAt_def ht3_def ht2_def ht1_def const_defs index_def Uvarint_first_0)
  have e31: "entryAt ht3 0 1 = Inr (ENTRY_VALID, 0, v)"
    using n len3 low3 read_v3
    by (simp add: entryAt_def ht3_def ht2_def ht1_def const_defs index_def Uvarint_first_0)
  have f3: "Buf (File ht3) = b3" "regionRWMutex ht3 = 65"
    by (simp_all add: ht3_def ht2_def ht1_def M)
  have g: "Get ht3 0 0 always_true = Inr ([], [])"
    using n len3 low3
    by (simp add: Get_def hashKey_def Get_loop.simps [of ht3] index_def f3 const_defs
        Uvarint_first_0 Let_def)
  from s1 s2 e20 e21 s3 flag zeros e30 e31 g show ?thesis
    by blast
qed

text \<open>
  C10: on every table that \<open>OpenHash\<close> returns for a file that does not exist, and for
  every value \<open>v\<close> (in particular every \<open>v \<noteq> 0\<close>): \<open>Put(0, 0)\<close> and \<open>Put(0, v)\<close> return
  and fill entries 0 and 1 of head bucket 0; \<open>Remove(0, 0)\<close> returns and leaves entry 0
  with the flag \<open>ENTRY_INVALID\<close> and with the 10 key bytes and the 10 value bytes (the 20
  bytes from address 11) all zero; entry 1 still holds the valid pair \<open>(0, v)\<close>; and
  \<open>Get(0, 0, always-true)\<close> returns no pair.
\<close>

theorem removed_zero_pair_hides_later_entry:
  assumes "OpenHash name None hashBits perBucket = Some (Inr ht)"
  shows "\<exists>ht1 ht2 ht3.
      Put ht 0 0 = Some (Inr ht1)
      \<and> Put ht1 0 v = Some (Inr ht2)
      \<and> entryAt ht2 0 0 = Inr (ENTRY_VALID, 0, 0)
      \<and> entryAt ht2 0 1 = Inr (ENTRY_VALID, 0, v)
      \<and> Remove ht2 0 0 = Inr ht3
      \<and> index (Buf (File ht3)) 10 = Inr ENTRY_INVALID
      \<and> take 20 (drop 11 (Buf (File ht3))) = replicate 20 0
      \<and> entryAt ht3 0 0 = Inr (ENTRY_INVALID, 0, 0)
      \<and> entryAt ht3 0 1 = Inr (ENTRY_VALID, 0, v)
      \<and> Get ht3 0 0 always_true = Inr ([], [])"
proof -
  from OpenHash_new_props(1) [OF assms] obtain n
    where "1048576 \<le> n" and "Buf (File ht) = replicate n 0"
    by blast
  moreover from OpenHash_new_props(2,3) [OF assms] have "2 \<le> PerBucket ht"
    by simp
  moreover note OpenHash_new_props(4) [OF assms]
  ultimately show ?thesis
    by (intro removed_zero_pair_steps)
qed

theorem removed_zero_pair_hides_later_entry_witness:
  "OpenHash ''t'' None 4 2 = Some (Inr (table_4_2 ''t'' 16 bytes_fresh))
   \<and> (\<exists>ht1 ht2 ht3.
      Put (table_4_2 ''t'' 16 bytes_fresh) 0 0 = Some (Inr ht1)
      \<and> Put ht1 0 7 = Some (Inr ht2)
      \<and> entryAt ht2 0 0 = Inr (ENTRY_VALID, 0, 0)
      \<and> entryAt ht2 0 1 = Inr (ENTRY_VALID, 0, 7)
      \<and> Remove ht2 0 0 = Inr ht3
      \<and> index (Buf (File ht3)) 10 = Inr ENTRY_INVALID
      \<and> take 20 (drop 11 (Buf (File ht3))) = replicate 20 0
      \<and> entryAt ht3 0 0 = Inr (ENTRY_INVALID, 0, 0)
      \<and> entryAt ht3 0 1 = Inr (ENTRY_VALID, 0, 7)
      \<and> Get ht3 0 0 always_true = Inr ([], []))"
  using removed_zero_pair_hides_later_entry [OF OpenHash_fresh_eval, of "''t''" 7]
    OpenHash_fresh_eval [of "''t''"]
  by simp

section \<open>What \<open>Remove\<close> does when it returns\<close>

text \<open>
  The entries of a chain in the order of the scan, from entry \<open>entry\<close> of bucket
  \<open>bucket\<close> on, as pairs of bucket and entry.
\<close>

function chain_slots :: "HashTable \<Rightarrow> u64 \<Rightarrow> u64 \<Rightarrow> (u64 \<times> u64) list" where
  "chain_slots ht bucket entry =
     (bucket, entry) #
       (case advance ht bucket entry of
          Inr (Some (bucket1, entry1)) \<Rightarrow> chain_slots ht bucket1 entry1
        | _ \<Rightarrow> [])"
  by pat_completeness auto
termination
  by (relation "inv_image scan_order (\<lambda>(ht, bucket, entry). (ht, bucket, entry))")
     (auto simp: wf_scan_order advance_scan_order)

declare chain_slots.simps [simp del]

text \<open>An entry that is not valid and holds key 0 and value 0: never written, as far as the scan can tell.\<close>

definition never_written :: "HashTable \<Rightarrow> u64 \<times> u64 \<Rightarrow> bool" where
  "never_written ht slot =
     (case entryAt ht (fst slot) (snd slot) of
        Inl e \<Rightarrow> False
      | Inr (flag, k, v) \<Rightarrow> flag \<noteq> ENTRY_VALID \<and> k = 0 \<and> v = 0)"

text \<open>A valid entry that holds the key and the value.\<close>

definition holds_pair :: "HashTable \<Rightarrow> u64 \<Rightarrow> u64 \<Rightarrow> u64 \<times> u64 \<Rightarrow> bool" where
  "holds_pair ht key val slot = (entryAt ht (fst slot) (snd slot) = Inr (ENTRY_VALID, key, val))"

text \<open>
  What the claim says \<open>Remove\<close> does: among the entries of the chain of the key before
  the first never-written one, the first valid entry that holds the key and the value gets
  the flag \<open>ENTRY_INVALID\<close>; when there is none, the table stays as it is.
\<close>

definition Remove_target :: "HashTable \<Rightarrow> u64 \<Rightarrow> u64 \<Rightarrow> u64 \<Rightarrow> u64 \<Rightarrow> (u64 \<times> u64) option" where
  "Remove_target ht key val bucket entry =
     find (holds_pair ht key val)
       (takeWhile (\<lambda>slot. \<not> never_written ht slot) (chain_slots ht bucket entry))"

definition invalidate :: "HashTable \<Rightarrow> (u64 \<times> u64) option \<Rightarrow> HashTable" where
  "invalidate ht target =
     (case target of
        None \<Rightarrow> ht
      | Some (bucket, entry) \<Rightarrow>
          ht\<lparr>File := (File ht)\<lparr>Buf := (Buf (File ht))
            [unat (bucket * BucketSize ht + BUCKET_HEADER_SIZE + entry * ENTRY_SIZE)
               := ENTRY_INVALID]\<rparr>\<rparr>)"

lemma Remove_loop_refines:
  "Remove_loop ht key val entry bucket = Inr ht'
   \<Longrightarrow> ht' = invalidate ht (Remove_target ht key val bucket entry)"
proof (induction ht key val entry bucket rule: Remove_loop.induct)
  case (1 ht key val entry bucket)
  let ?a = "bucket * BucketSize ht + BUCKET_HEADER_SIZE + entry * ENTRY_SIZE"
  from 1(2) obtain k v flag where
    k: "Uvarint (Buf (File ht)) (?a + 1) (?a + 11) = Inr k"
    and v: "Uvarint (Buf (File ht)) (?a + 11) (?a + 21) = Inr v"
    and flag: "index (Buf (File ht)) ?a = Inr flag"
    by (subst (asm) Remove_loop.simps) (auto simp: Let_def split: sum.splits)
  then have at: "entryAt ht bucket entry = Inr (flag, k, v)"
    by (simp add: entryAt_def Let_def)
  from 1(2) k v flag have body:
    "(if flag = ENTRY_VALID \<and> k = key \<and> v = val then
        Inr (ht\<lparr>File := (File ht)\<lparr>Buf := (Buf (File ht))[unat ?a := ENTRY_INVALID]\<rparr>\<rparr>)
      else if flag \<noteq> ENTRY_VALID \<and> k = 0 \<and> v = 0 then Inr ht
      else
        (case advance ht bucket entry of
           Inl e \<Rightarrow> Inl e
         | Inr None \<Rightarrow> Inr ht
         | Inr (Some (bucket1, entry1)) \<Rightarrow> Remove_loop ht key val entry1 bucket1)) = Inr ht'"
    by (subst (asm) Remove_loop.simps) (simp add: Let_def)
  have slots: "chain_slots ht bucket entry = (bucket, entry) #
       (case advance ht bucket entry of
          Inr (Some (bucket1, entry1)) \<Rightarrow> chain_slots ht bucket1 entry1
        | _ \<Rightarrow> [])"
    by (subst chain_slots.simps) simp
  consider (hit) "flag = ENTRY_VALID \<and> k = key \<and> v = val"
    | (stop) "\<not> (flag = ENTRY_VALID \<and> k = key \<and> v = val)" "flag \<noteq> ENTRY_VALID \<and> k = 0 \<and> v = 0"
    | (go) "\<not> (flag = ENTRY_VALID \<and> k = key \<and> v = val)" "\<not> (flag \<noteq> ENTRY_VALID \<and> k = 0 \<and> v = 0)"
    by blast
  then show ?case
  proof cases
    case hit
    with at have "\<not> never_written ht (bucket, entry)" and "holds_pair ht key val (bucket, entry)"
      by (simp_all add: never_written_def holds_pair_def)
    then have "Remove_target ht key val bucket entry = Some (bucket, entry)"
      by (simp add: Remove_target_def slots)
    moreover from hit body
    have "ht' = ht\<lparr>File := (File ht)\<lparr>Buf := (Buf (File ht))[unat ?a := ENTRY_INVALID]\<rparr>\<rparr>"
      by simp
    ultimately show ?thesis
      by (simp add: invalidate_def)
  next
    case stop
    with at have "never_written ht (bucket, entry)"
      by (simp add: never_written_def)
    then have "Remove_target ht key val bucket entry = None"
      by (simp add: Remove_target_def slots)
    moreover from stop body have "ht' = ht"
      by simp
    ultimately show ?thesis
      by (simp add: invalidate_def)
  next
    case go
    then have nw: "\<not> never_written ht (bucket, entry)" and nh: "\<not> holds_pair ht key val (bucket, entry)"
      using at by (auto simp: never_written_def holds_pair_def)
    from body have adv:
      "(case advance ht bucket entry of
           Inl e \<Rightarrow> Inl e
         | Inr None \<Rightarrow> Inr ht
         | Inr (Some (bucket1, entry1)) \<Rightarrow> Remove_loop ht key val entry1 bucket1) = Inr ht'"
      by (simp only: go if_False)
    show ?thesis
    proof (cases "advance ht bucket entry")
      case (Inl e)
      with adv show ?thesis by simp
    next
      case (Inr r)
      show ?thesis
      proof (cases r)
        case None
        with Inr nw nh have "Remove_target ht key val bucket entry = None"
          by (simp add: Remove_target_def slots)
        moreover from None Inr adv have "ht' = ht"
          by simp
        ultimately show ?thesis
          by (simp add: invalidate_def)
      next
        case (Some be)
        obtain b1 e1 where be: "be = (b1, e1)"
          by (cases be)
        from Inr Some be adv have rec: "Remove_loop ht key val e1 b1 = Inr ht'"
          by simp
        have "ht' = invalidate ht (Remove_target ht key val b1 e1)"
          by (rule 1(1) [OF refl k v flag go(1) go(2) Inr Some be [symmetric] rec])
        moreover from Inr Some be nw nh
        have "Remove_target ht key val bucket entry = Remove_target ht key val b1 e1"
          by (simp add: Remove_target_def slots)
        ultimately show ?thesis
          by simp
      qed
    qed
  qed
qed

lemma Remove_refines:
  assumes "Remove ht key val = Inr ht'"
  shows "ht' = invalidate ht (Remove_target ht key val (hashKey ht key) 0)"
  using assms Remove_loop_refines [of ht key val 0 "hashKey ht key" ht']
  by (simp add: Remove_def Let_def split: if_splits)

text \<open>
  So a call that returns has either left the table as it is, or has written
  \<open>ENTRY_INVALID\<close> over the flag of one entry that was valid and held the key and the
  value, and nothing else.
\<close>

lemma Remove_one_flag:
  assumes "Remove ht key val = Inr ht'"
  shows "ht' = ht
    \<or> (\<exists>bucket entry. entryAt ht bucket entry = Inr (ENTRY_VALID, key, val)
          \<and> ht' = ht\<lparr>File := (File ht)\<lparr>Buf := (Buf (File ht))
                [unat (bucket * BucketSize ht + BUCKET_HEADER_SIZE + entry * ENTRY_SIZE)
                   := ENTRY_INVALID]\<rparr>\<rparr>)"
proof (cases "Remove_target ht key val (hashKey ht key) 0")
  case None
  with Remove_refines [OF assms] show ?thesis
    by (simp add: invalidate_def)
next
  case (Some slot)
  obtain bucket entry where slot: "slot = (bucket, entry)"
    by (cases slot)
  from Some have "holds_pair ht key val slot"
    unfolding Remove_target_def by (auto simp: find_Some_iff)
  with slot have "entryAt ht bucket entry = Inr (ENTRY_VALID, key, val)"
    by (simp add: holds_pair_def)
  with Remove_refines [OF assms] Some slot show ?thesis
    by (auto simp: invalidate_def)
qed

section \<open>The search for the used size always ends\<close>

text \<open>
  On the way of the search, \<open>mid\<close> lies in the file, below \<open>high\<close>, and above \<open>low\<close>
  unless \<open>high - mid = 1\<close>.
\<close>

definition search_state :: "byte list \<Rightarrow> u64 \<Rightarrow> u64 \<Rightarrow> u64 \<Rightarrow> bool" where
  "search_state buf low mid high =
     (unat high \<le> length buf \<and> low \<le> mid \<and> mid < high \<and> (low < mid \<or> high - mid = 1))"

lemma Open_loop_returns:
  "search_state buf low mid high \<Longrightarrow> \<exists>r. Open_loop buf low mid high = Some r"
proof (induction "unat high - unat low" arbitrary: low mid high rule: less_induct)
  case less
  from less(2) have hi: "unat high \<le> length buf" and lm: "unat low \<le> unat mid"
    and mh: "unat mid < unat high"
    by (simp_all add: search_state_def word_le_nat_alt word_less_nat_alt)
  then have ix: "index buf mid = Inr (buf ! unat mid)"
    by (simp add: index_def)
  show ?case
  proof (cases "high - mid = 1")
    case True
    then show ?thesis
      by (subst Open_loop.simps) (auto simp: ix index_def split: sum.splits)
  next
    case False
    with less(2) have lm': "unat low < unat mid"
      by (simp add: search_state_def word_less_nat_alt)
    have d: "unat (high - mid) = unat high - unat mid"
      using mh by (simp add: unat_sub word_le_nat_alt)
    have d2: "2 \<le> unat high - unat mid"
    proof -
      have "unat (high - mid) \<noteq> 1"
        using False by (metis unat_1 word_unat_eq_iff)
      with d mh show ?thesis by arith
    qed
    have e: "unat (mid - low) = unat mid - unat low"
      using lm by (simp add: unat_sub word_le_nat_alt)
    show ?thesis
    proof (cases "buf ! unat mid = 0")
      case True
      let ?m = "low + (mid - low) div 2"
      have m: "unat ?m = unat low + (unat mid - unat low) div 2"
      proof -
        have "unat ((mid - low) div 2) = (unat mid - unat low) div 2"
          by (simp add: unat_div e)
        moreover have "unat mid < 2 ^ 64"
          using unsigned_less [of mid] by simp
        then have "unat low + (unat mid - unat low) div 2 < 2 ^ 64"
          using lm' by arith
        ultimately show ?thesis
          by (simp add: unat_word_ariths)
      qed
      have st: "search_state buf low ?m mid"
      proof -
        have "unat mid \<le> length buf"
          using hi mh by simp
        moreover have "unat low \<le> unat ?m" and "unat ?m < unat mid"
          unfolding m using lm' by arith+
        then have "low \<le> ?m" and "?m < mid"
          by (simp_all only: word_le_nat_alt word_less_nat_alt)
        moreover have "low < ?m \<or> mid - ?m = 1"
        proof (cases "unat mid - unat low = 1")
          case True
          then have "unat ?m = unat low"
            using m by simp
          then have "?m = low"
            by (simp add: word_unat_eq_iff)
          moreover have "unat (mid - low) = unat (1 :: u64)"
            using e True by simp
          then have "mid - low = 1"
            by (simp only: word_unat_eq_iff)
          ultimately show ?thesis
            by simp
        next
          case False
          with lm' have "2 \<le> unat mid - unat low"
            by arith
          then have "unat low < unat ?m"
            unfolding m by arith
          then show ?thesis
            by (simp add: word_less_nat_alt)
        qed
        ultimately show ?thesis
          by (simp add: search_state_def)
      qed
      have "unat mid - unat low < unat high - unat low"
        using mh lm by arith
      from less(1) [OF this st] obtain r where "Open_loop buf low ?m mid = Some r"
        by blast
      with False True ix show ?thesis
        by (subst Open_loop.simps) simp
    next
      case nz: False
      let ?m = "mid + (high - mid) div 2"
      have m: "unat ?m = unat mid + (unat high - unat mid) div 2"
      proof -
        have "unat ((high - mid) div 2) = (unat high - unat mid) div 2"
          by (simp add: unat_div d)
        moreover have "unat high < 2 ^ 64"
          using unsigned_less [of high] by simp
        then have "unat mid + (unat high - unat mid) div 2 < 2 ^ 64"
          using mh by arith
        ultimately show ?thesis
          by (simp add: unat_word_ariths)
      qed
      have st: "search_state buf mid ?m high"
      proof -
        have "unat mid < unat ?m" and "unat ?m < unat high"
          unfolding m using d2 mh by arith+
        then have "mid < ?m" and "?m < high"
          by (simp_all only: word_less_nat_alt)
        then show ?thesis
          using hi by (simp add: search_state_def)
      qed
      have "unat high - unat mid < unat high - unat low"
        using mh lm' by arith
      from less(1) [OF this st] obtain r where "Open_loop buf mid ?m high = Some r"
        by blast
      with False nz ix show ?thesis
        by (subst Open_loop.simps) simp
    qed
  qed
qed

lemma Open_search_returns:
  assumes "1 \<le> sz" and "unat sz \<le> length buf"
  shows "\<exists>r. Open_loop buf 0 (sz div 2) sz = Some r"
proof (rule Open_loop_returns)
  have s: "0 < unat sz"
    using assms(1) by (simp add: word_le_nat_alt)
  have h: "unat (sz div 2) = unat sz div 2"
    by (simp add: unat_div)
  have lt: "sz div 2 < sz"
    using s h by (simp add: word_less_nat_alt)
  have "0 < sz div 2 \<or> sz - sz div 2 = 1"
  proof (cases "unat sz = 1")
    case True
    then have "sz = 1"
      by (metis unat_1 word_unat_eq_iff)
    then show ?thesis by simp
  next
    case False
    with s have "0 < unat sz div 2"
      by arith
    then have "0 < unat (sz div 2)"
      by (simp only: h)
    then show ?thesis
      by (simp add: word_less_nat_alt)
  qed
  with lt assms(2) show "search_state buf 0 (sz div 2) sz"
    by (simp add: search_state_def)
qed

section \<open>Growth by whole chunks\<close>

lemma unat_of_nat_chunks:
  assumes "j * 1048576 < 2 ^ 64"
  shows "unat (of_nat j * FILE_GROWTH_INCREMENTAL :: u64) = j * 1048576"
proof -
  have "j < 2 ^ 64"
    using assms by simp
  then have "unat (of_nat j :: u64) = j"
    by (simp add: unat_of_nat)
  then show ?thesis
    using assms by (simp add: unat_word_ariths FILE_GROWTH_INCREMENTAL_def)
qed

text \<open>
  For a growth of \<open>k\<close> whole chunks of \<open>FILE_GROWTH_INCREMENTAL\<close> bytes the loop writes
  exactly that many zero bytes.
\<close>

lemma CheckSizeAndEnsure_loop_chunks:
  assumes "k * 1048576 < 2 ^ 64" and "j \<le> k"
  shows "CheckSizeAndEnsure_loop (of_nat j * FILE_GROWTH_INCREMENTAL)
           (of_nat k * FILE_GROWTH_INCREMENTAL) fh
         = Some (Inr (fh @ replicate ((k - j) * 1048576) 0))"
  using assms(2)
proof (induction "k - j" arbitrary: j fh)
  case 0
  then have "j = k" by simp
  then show ?case
    by (subst CheckSizeAndEnsure_loop.simps) simp
next
  case (Suc d)
  then have jk: "j < k" and d: "d = k - (j + 1)" and j1: "j + 1 \<le> k"
    by simp_all
  have uk: "unat (of_nat k * FILE_GROWTH_INCREMENTAL :: u64) = k * 1048576"
    using assms(1) by (rule unat_of_nat_chunks)
  have "j * 1048576 < 2 ^ 64" and j1': "(j + 1) * 1048576 < 2 ^ 64"
    using assms(1) jk by simp_all
  then have uj: "unat (of_nat j * FILE_GROWTH_INCREMENTAL :: u64) = j * 1048576"
    and uj1: "unat (of_nat (j + 1) * FILE_GROWTH_INCREMENTAL :: u64) = (j + 1) * 1048576"
    by (simp_all only: unat_of_nat_chunks)
  have step: "of_nat j * FILE_GROWTH_INCREMENTAL + FILE_GROWTH_INCREMENTAL
      = (of_nat (j + 1) * FILE_GROWTH_INCREMENTAL :: u64)"
    by (simp add: algebra_simps)
  have lt: "of_nat j * FILE_GROWTH_INCREMENTAL < (of_nat k * FILE_GROWTH_INCREMENTAL :: u64)"
    unfolding word_less_nat_alt uj uk using jk by simp
  have nogt: "\<not> (of_nat k * FILE_GROWTH_INCREMENTAL
      < (of_nat j * FILE_GROWTH_INCREMENTAL + FILE_GROWTH_INCREMENTAL :: u64))"
    unfolding step word_less_nat_alt uj1 uk using j1 by simp
  have "CheckSizeAndEnsure_loop (of_nat j * FILE_GROWTH_INCREMENTAL)
           (of_nat k * FILE_GROWTH_INCREMENTAL) fh
      = CheckSizeAndEnsure_loop (of_nat (j + 1) * FILE_GROWTH_INCREMENTAL)
           (of_nat k * FILE_GROWTH_INCREMENTAL)
           (fh @ replicate (unat FILE_GROWTH_INCREMENTAL) 0)"
    using lt nogt by (subst CheckSizeAndEnsure_loop.simps) (simp add: step)
  also have "\<dots> = Some (Inr ((fh @ replicate (unat FILE_GROWTH_INCREMENTAL) 0)
      @ replicate ((k - (j + 1)) * 1048576) 0))"
    by (rule Suc(1) [OF d j1])
  also have "(fh @ replicate (unat FILE_GROWTH_INCREMENTAL) 0)
      @ replicate ((k - (j + 1)) * 1048576) 0 = fh @ replicate ((k - j) * 1048576) (0 :: byte)"
  proof -
    have "(k - j) * 1048576 = 1048576 + (k - (j + 1)) * 1048576"
      using jk by (simp add: algebra_simps)
    then show ?thesis
      by (simp add: FILE_GROWTH_INCREMENTAL_def replicate_add)
  qed
  finally show ?case .
qed

lemma CheckSizeAndEnsure_loop_whole:
  assumes "k * 1048576 < 2 ^ 64" and "growth = of_nat k * FILE_GROWTH_INCREMENTAL"
  shows "CheckSizeAndEnsure_loop 0 growth fh = Some (Inr (fh @ replicate (unat growth) 0))"
  using CheckSizeAndEnsure_loop_chunks [OF assms(1), of 0 fh] unat_of_nat_chunks [OF assms(1)]
  by (simp add: assms(2))

text \<open>
  For a growth of \<open>k \<ge> 1\<close> whole chunks, and sizes that stay below \<open>2 ^ 64\<close>,
  \<open>CheckSizeAndEnsure\<close> returns after the least number \<open>j\<close> of growth steps that makes
  room; each step appends exactly \<open>Growth\<close> zero bytes and adds \<open>Growth\<close> to \<open>Size\<close>.
\<close>

lemma CheckSizeAndEnsure_returns:
  assumes "1 \<le> k" and "k * 1048576 < 2 ^ 64"
    and "Growth f = of_nat k * FILE_GROWTH_INCREMENTAL"
    and "unat (UsedSize f) + unat m + unat (Growth f) < 2 ^ 64"
  shows "\<exists>j. CheckSizeAndEnsure f m
            = Some (Inr (f\<lparr>Buf := Buf f @ replicate (j * unat (Growth f)) 0,
                          Size := Size f + of_nat j * Growth f\<rparr>))
          \<and> unat (UsedSize f) + unat m \<le> unat (Size f) + j * unat (Growth f)
          \<and> (\<forall>i<j. unat (Size f) + i * unat (Growth f) < unat (UsedSize f) + unat m)"
  using assms(3,4)
proof (induction "unat (UsedSize f) + unat m - unat (Size f)" arbitrary: f rule: less_induct)
  case less
  let ?g = "Growth f"
  have ug: "unat ?g = k * 1048576"
    unfolding less(2) using assms(2) by (rule unat_of_nat_chunks)
  have g0: "0 < unat ?g"
    using ug assms(1) by simp
  have um: "unat (UsedSize f + m) = unat (UsedSize f) + unat m"
    using less(3) by (simp add: unat_word_ariths)
  show ?case
  proof (cases "UsedSize f + m \<le> Size f")
    case True
    then have "CheckSizeAndEnsure f m = Some (Inr f)"
      by (subst CheckSizeAndEnsure.simps) simp
    moreover from True have "unat (UsedSize f) + unat m \<le> unat (Size f)"
      by (simp add: word_le_nat_alt um)
    ultimately show ?thesis
      by (intro exI [of _ 0]) simp
  next
    case False
    then have gap: "unat (Size f) < unat (UsedSize f) + unat m"
      by (simp add: word_le_nat_alt um)
    define f1 where "f1 = f\<lparr>Buf := Buf f @ replicate (unat ?g) 0, Size := Size f + ?g\<rparr>"
    have us1: "unat (Size f1) = unat (Size f) + unat ?g"
      using gap less(3) by (simp add: f1_def unat_word_ariths)
    have step: "CheckSizeAndEnsure f m = CheckSizeAndEnsure f1 m"
      using False CheckSizeAndEnsure_loop_whole [OF assms(2) less(2), of "Buf f"]
      by (subst CheckSizeAndEnsure.simps) (simp add: f1_def)
    have g1: "Growth f1 = of_nat k * FILE_GROWTH_INCREMENTAL"
      and same: "UsedSize f1 = UsedSize f" "Growth f1 = Growth f"
      by (simp_all add: f1_def less(2))
    have smaller: "unat (UsedSize f1) + unat m - unat (Size f1)
        < unat (UsedSize f) + unat m - unat (Size f)"
      using gap g0 us1 same by simp
    have nowrap1: "unat (UsedSize f1) + unat m + unat (Growth f1) < 2 ^ 64"
      using less(3) same by simp
    from less(1) [OF smaller g1 nowrap1] obtain j where
      ret: "CheckSizeAndEnsure f1 m
            = Some (Inr (f1\<lparr>Buf := Buf f1 @ replicate (j * unat (Growth f1)) 0,
                           Size := Size f1 + of_nat j * Growth f1\<rparr>))"
      and room: "unat (UsedSize f1) + unat m \<le> unat (Size f1) + j * unat (Growth f1)"
      and least: "\<forall>i<j. unat (Size f1) + i * unat (Growth f1) < unat (UsedSize f1) + unat m"
      by blast
    have rec_eq: "f1\<lparr>Buf := Buf f1 @ replicate (j * unat (Growth f1)) 0,
                    Size := Size f1 + of_nat j * Growth f1\<rparr>
        = f\<lparr>Buf := Buf f @ replicate ((j + 1) * unat ?g) 0,
             Size := Size f + of_nat (j + 1) * ?g\<rparr>"
      by (simp add: f1_def replicate_add algebra_simps)
    have least': "\<forall>i<j + 1. unat (Size f) + i * unat ?g < unat (UsedSize f) + unat m"
    proof (intro allI impI)
      fix i
      assume "i < j + 1"
      show "unat (Size f) + i * unat ?g < unat (UsedSize f) + unat m"
      proof (cases i)
        case 0
        with gap show ?thesis by simp
      next
        case (Suc i')
        with \<open>i < j + 1\<close> have "i' < j" by simp
        with least have "unat (Size f1) + i' * unat (Growth f1) < unat (UsedSize f1) + unat m"
          by blast
        with Suc us1 same show ?thesis
          by (simp add: algebra_simps)
      qed
    qed
    have room': "unat (UsedSize f) + unat m \<le> unat (Size f) + (j + 1) * unat ?g"
      using room us1 same by (simp add: algebra_simps)
    have "CheckSizeAndEnsure f m
        = Some (Inr (f\<lparr>Buf := Buf f @ replicate ((j + 1) * unat ?g) 0,
                       Size := Size f + of_nat (j + 1) * ?g\<rparr>))"
      using step ret rec_eq by (simp only:)
    with room' least' show ?thesis
      by blast
  qed
qed

end
